theory Spec2Isabelle
  imports Complex_Main "HOL-Library.Log_Nat"
begin

section \<open>JavaScript numbers\<close>

text \<open>
  Every number of the server is an IEEE 754 binary64 value. A finite number is kept as the
  exact rational it denotes; \<open>Fin 0\<close> is \<open>+0\<close> and \<open>NZero\<close> is \<open>-0\<close>. The flag of \<open>Infinity\<close>
  is \<open>True\<close> for the negative one. Arithmetic computes the exact rational result and rounds
  it to the nearest binary64 value, ties to even (\<open>to_double\<close>). The numbers of a JSON body
  are binary64 values; the functions are defined on every rational all the same.
\<close>

datatype jsnum = NaN | Infinity bool | NZero | Fin rat

definition is_nan :: "jsnum \<Rightarrow> bool" where
  "is_nan a = (case a of NaN \<Rightarrow> True | _ \<Rightarrow> False)"

definition is_inf :: "jsnum \<Rightarrow> bool" where
  "is_inf a = (case a of Infinity _ \<Rightarrow> True | _ \<Rightarrow> False)"

definition is_zero :: "jsnum \<Rightarrow> bool" where
  "is_zero a = (case a of NZero \<Rightarrow> True | Fin q \<Rightarrow> q = 0 | _ \<Rightarrow> False)"

definition negative :: "jsnum \<Rightarrow> bool" where
  "negative a = (case a of NaN \<Rightarrow> False | Infinity s \<Rightarrow> s | NZero \<Rightarrow> True | Fin q \<Rightarrow> q < 0)"

definition the_rat :: "jsnum \<Rightarrow> rat" where
  "the_rat a = (case a of Fin q \<Rightarrow> q | _ \<Rightarrow> 0)"

definition zero_of :: "bool \<Rightarrow> jsnum" where
  "zero_of neg = (if neg then NZero else Fin 0)"

definition pow2 :: "int \<Rightarrow> rat" where
  "pow2 k = (if 0 \<le> k then 2 ^ nat k else 1 / 2 ^ nat (- k))"

definition ilog2 :: "rat \<Rightarrow> int" where
  \<comment> \<open>\<open>\<lfloor>log\<^sub>2 q\<rfloor>\<close> for \<open>q > 0\<close>: with \<open>q = p / d\<close> it is the difference of the bit lengths or one less\<close>
  "ilog2 q = (case quotient_of q of (p, d) \<Rightarrow>
     let k = bitlen p - bitlen d in if pow2 k \<le> q then k else k - 1)"

definition round_half_even :: "rat \<Rightarrow> int" where
  "round_half_even m = (let f = \<lfloor>m\<rfloor>; r = m - of_int f in
     if r < 1 / 2 then f else if 1 / 2 < r then f + 1 else if even f then f else f + 1)"

definition to_double :: "rat \<Rightarrow> jsnum" where
  \<comment> \<open>round to nearest, ties to even: 53 significant bits, least exponent -1022 (subnormals
      below it), overflow to an infinity at \<open>2 ^ 1024\<close>\<close>
  "to_double q = (if q = 0 then Fin 0 else
     let a = \<bar>q\<bar>;
         e = max (ilog2 a) (- 1022);
         u = pow2 (e - 52);
         n = round_half_even (a / u);
         v = of_int n * u
     in if pow2 1024 \<le> v then Infinity (q < 0)
        else if n = 0 then zero_of (q < 0)
        else Fin (if q < 0 then - v else v))"

definition js_neg :: "jsnum \<Rightarrow> jsnum" where
  "js_neg a = (case a of NaN \<Rightarrow> NaN | Infinity s \<Rightarrow> Infinity (\<not> s) | NZero \<Rightarrow> Fin 0
     | Fin q \<Rightarrow> if q = 0 then NZero else Fin (- q))"

definition js_add :: "jsnum \<Rightarrow> jsnum \<Rightarrow> jsnum" where
  "js_add a b =
     (if is_nan a \<or> is_nan b then NaN
      else if is_inf a then (if is_inf b \<and> negative a \<noteq> negative b then NaN else a)
      else if is_inf b then b
      else if is_zero a \<and> is_zero b then zero_of (negative a \<and> negative b)
      else to_double (the_rat a + the_rat b))"

definition js_sub :: "jsnum \<Rightarrow> jsnum \<Rightarrow> jsnum" where
  "js_sub a b = js_add a (js_neg b)"

definition js_mul :: "jsnum \<Rightarrow> jsnum \<Rightarrow> jsnum" where
  "js_mul a b =
     (if is_nan a \<or> is_nan b then NaN
      else if is_inf a \<or> is_inf b then
        (if is_zero a \<or> is_zero b then NaN else Infinity (negative a \<noteq> negative b))
      else if is_zero a \<or> is_zero b then zero_of (negative a \<noteq> negative b)
      else to_double (the_rat a * the_rat b))"

definition js_div :: "jsnum \<Rightarrow> jsnum \<Rightarrow> jsnum" where
  "js_div a b =
     (if is_nan a \<or> is_nan b then NaN
      else if is_inf a then (if is_inf b then NaN else Infinity (negative a \<noteq> negative b))
      else if is_inf b then zero_of (negative a \<noteq> negative b)
      else if is_zero b then (if is_zero a then NaN else Infinity (negative a \<noteq> negative b))
      else if is_zero a then zero_of (negative a \<noteq> negative b)
      else to_double (the_rat a / the_rat b))"

definition num_eq :: "jsnum \<Rightarrow> jsnum \<Rightarrow> bool" where
  \<comment> \<open>\<open>===\<close> on two numbers: \<open>NaN\<close> equals nothing, the two zeros are equal\<close>
  "num_eq a b = (\<not> is_nan a \<and> \<not> is_nan b \<and> (a = b \<or> (is_zero a \<and> is_zero b)))"

subsection \<open>Rounding to nearest\<close>

text \<open>
  What IEEE 754 asks of the binary64 result \<open>r\<close> of an operation whose exact value is the
  rational \<open>e\<close>, rounding to nearest, ties to even. The finite binary64 numbers are the
  \<open>n \<sqdot> 2\<^sup>k\<close> with \<open>\<bar>n\<bar> < 2\<^sup>5\<^sup>3\<close> and \<open>-1074 \<le> k \<le> 971\<close>. The result is not \<open>NaN\<close>. It is an infinity,
  of the sign of \<open>e\<close>, only when \<open>e\<close> is at least \<open>2\<^sup>1\<^sup>0\<^sup>2\<^sup>4 - 2\<^sup>9\<^sup>7\<^sup>0\<close> in magnitude, and \<open>-0\<close> only
  when \<open>e\<close> is not positive and at most \<open>2\<^sup>-\<^sup>1\<^sup>0\<^sup>7\<^sup>5\<close> in magnitude. A finite result is a binary64
  number of the sign of \<open>e\<close>, for an \<open>e\<close> below \<open>2\<^sup>1\<^sup>0\<^sup>2\<^sup>4 - 2\<^sup>9\<^sup>7\<^sup>0\<close> in magnitude; no binary64 number
  is nearer to \<open>e\<close>; and when another one is as near, the significand of the result is even.
  These predicates specify the arithmetic; the server computes with \<open>to_double\<close>.
\<close>

definition is_finite :: "jsnum \<Rightarrow> bool" where
  "is_finite a = (case a of NZero \<Rightarrow> True | Fin q \<Rightarrow> True | _ \<Rightarrow> False)"

definition is_double :: "rat \<Rightarrow> bool" where
  "is_double v = (\<exists>n k. \<bar>n\<bar> < 2 ^ 53 \<and> - 1074 \<le> k \<and> k \<le> 971 \<and> v = of_int n * pow2 k)"

definition even_double :: "rat \<Rightarrow> bool" where
  "even_double v = (\<exists>n k. even n \<and> \<bar>n\<bar> \<le> 2 ^ 53 \<and> - 1074 \<le> k \<and> k \<le> 971
     \<and> (k = - 1074 \<or> 2 ^ 52 \<le> \<bar>n\<bar>) \<and> v = of_int n * pow2 k)"

definition rounds :: "rat \<Rightarrow> jsnum \<Rightarrow> bool" where
  "rounds e r = (case r of
       NaN \<Rightarrow> False
     | Infinity s \<Rightarrow> s = (e < 0) \<and> 2 ^ 1024 - 2 ^ 970 \<le> \<bar>e\<bar>
     | NZero \<Rightarrow> e \<le> 0 \<and> \<bar>e\<bar> \<le> 1 / 2 ^ 1075
     | Fin v \<Rightarrow> is_double v \<and> (v < 0) = (e < 0) \<and> \<bar>e\<bar> < 2 ^ 1024 - 2 ^ 970
         \<and> (\<forall>w. is_double w \<longrightarrow> \<bar>v - e\<bar> \<le> \<bar>w - e\<bar>)
         \<and> (\<forall>w. is_double w \<and> w \<noteq> v \<and> \<bar>w - e\<bar> = \<bar>v - e\<bar> \<longrightarrow> even_double v))"

section \<open>JavaScript values\<close>

text \<open>
  The values the handlers see are the ones \<open>JSON.parse\<close> and the query-string parser
  build, and \<open>undefined\<close> for a property that is not there. An object is the list of
  its own properties in enumeration order. A string is the list of its code units; the
  code units of the model are the ones below 256.
\<close>

datatype jsval =
    JUndefined
  | JNull
  | JBool bool
  | JNum jsnum
  | JStr string
  | JArr "jsval list"
  | JObj "(string \<times> jsval) list"

type_synonym jsobj = "(string \<times> jsval) list"

definition truthy :: "jsval \<Rightarrow> bool" where
  "truthy v = (case v of
       JUndefined \<Rightarrow> False
     | JNull \<Rightarrow> False
     | JBool b \<Rightarrow> b
     | JNum n \<Rightarrow> \<not> is_nan n \<and> \<not> is_zero n
     | JStr s \<Rightarrow> s \<noteq> []
     | JArr _ \<Rightarrow> True
     | JObj _ \<Rightarrow> True)"

definition typeof :: "jsval \<Rightarrow> string" where
  "typeof v = (case v of
       JUndefined \<Rightarrow> ''undefined''
     | JNull \<Rightarrow> ''object''
     | JBool _ \<Rightarrow> ''boolean''
     | JNum _ \<Rightarrow> ''number''
     | JStr _ \<Rightarrow> ''string''
     | JArr _ \<Rightarrow> ''object''
     | JObj _ \<Rightarrow> ''object'')"

definition strict_eq_num :: "jsval \<Rightarrow> jsnum \<Rightarrow> bool" where
  \<comment> \<open>\<open>v === n\<close> for a number \<open>n\<close>\<close>
  "strict_eq_num v n = (case v of JNum m \<Rightarrow> num_eq m n | _ \<Rightarrow> False)"

definition strict_eq_str :: "jsval \<Rightarrow> string \<Rightarrow> bool" where
  \<comment> \<open>\<open>v === s\<close> for a string \<open>s\<close>\<close>
  "strict_eq_str v s = (case v of JStr t \<Rightarrow> t = s | _ \<Rightarrow> False)"

subsection \<open>Decimal numerals and property keys\<close>

definition digit_char :: "nat \<Rightarrow> char" where
  "digit_char d = char_of (48 + d)"

fun show_nat :: "nat \<Rightarrow> string" where
  "show_nat n = (if n < 10 then [digit_char n] else show_nat (n div 10) @ [digit_char (n mod 10)])"

declare show_nat.simps [simp del]

definition is_digit :: "char \<Rightarrow> bool" where
  "is_digit c = (48 \<le> (of_char c :: nat) \<and> (of_char c :: nat) \<le> 57)"

definition int_of_digits :: "string \<Rightarrow> int" where
  "int_of_digits k = foldl (\<lambda>a c. 10 * a + (of_char c - 48)) 0 k"

definition is_array_index :: "string \<Rightarrow> bool" where
  \<comment> \<open>a canonical numeral below \<open>2 ^ 32 - 1\<close>: such keys are enumerated first, in ascending order\<close>
  "is_array_index k = (k \<noteq> [] \<and> list_all is_digit k \<and> (hd k \<noteq> CHR ''0'' \<or> k = ''0'')
     \<and> int_of_digits k < 2 ^ 32 - 1)"

fun insert_prop :: "string \<Rightarrow> jsval \<Rightarrow> jsobj \<Rightarrow> jsobj" where
  \<comment> \<open>a new property: an array index goes among the indices, any other key goes last\<close>
  "insert_prop k v [] = [(k, v)]"
| "insert_prop k v ((k', v') # ps) =
     (if is_array_index k \<and> (\<not> is_array_index k' \<or> int_of_digits k < int_of_digits k')
      then (k, v) # (k', v') # ps
      else (k', v') # insert_prop k v ps)"

definition set_prop :: "string \<Rightarrow> jsval \<Rightarrow> jsobj \<Rightarrow> jsobj" where
  \<comment> \<open>defining a property: an existing key keeps its place and takes the new value\<close>
  "set_prop k v ps =
     (if k \<in> set (map fst ps) then map (\<lambda>p. if fst p = k then (k, v) else p) ps
      else insert_prop k v ps)"

definition own_props :: "jsval \<Rightarrow> jsobj" where
  \<comment> \<open>the own enumerable properties of an object or an array\<close>
  "own_props v = (case v of
       JObj ps \<Rightarrow> ps
     | JArr xs \<Rightarrow> zip (map show_nat [0..<length xs]) xs
     | _ \<Rightarrow> [])"

definition spread :: "jsobj \<Rightarrow> jsobj \<Rightarrow> jsobj" where
  \<comment> \<open>\<open>{...target, ...src}\<close>: the properties of \<open>src\<close> are defined on \<open>target\<close> one after the other\<close>
  "spread target src = foldl (\<lambda>ob (k, v). set_prop k v ob) target src"

definition lookup :: "jsobj \<Rightarrow> string \<Rightarrow> jsval" where
  "lookup ps k = (case map_of ps k of Some v \<Rightarrow> v | None \<Rightarrow> JUndefined)"

definition get_prop :: "jsval \<Rightarrow> string \<Rightarrow> jsval" where
  \<comment> \<open>\<open>v.k\<close> for a name \<open>k\<close> that no prototype defines: the own property, else \<open>undefined\<close>\<close>
  "get_prop v k = lookup (own_props v) k"

definition object_keys :: "jsval \<Rightarrow> jsval" where
  "object_keys v = JArr (map (\<lambda>p. JStr (fst p)) (own_props v))"

subsection \<open>Built-ins of the host\<close>

text \<open>
  A handler that throws is answered by the global error handler with the message of the
  error. The built-ins whose results no property below depends on are parameters of the
  model: the decimal rendering of a number, \<open>String.prototype.toLowerCase\<close>, the comparisons
  \<open>a[k] < b[k]\<close> and \<open>a[k] > b[k]\<close> of a member of two objects, \<open>Array.prototype.sort\<close> with a
  comparison function, and the messages of the errors. A comparison reads the member
  along the prototype chain and converts the key and the two members; it throws when a
  conversion does, and so does a sort whose comparison function throws.
\<close>

datatype thrown = TypeError string

record host =
  numberToString :: "jsnum \<Rightarrow> string"
  toLowerCase :: "string \<Rightarrow> string"
  memberLess :: "jsval \<Rightarrow> jsobj \<Rightarrow> jsobj \<Rightarrow> thrown + bool"
  memberGreater :: "jsval \<Rightarrow> jsobj \<Rightarrow> jsobj \<Rightarrow> thrown + bool"
  arraySort :: "(jsobj \<Rightarrow> jsobj \<Rightarrow> thrown + int) \<Rightarrow> jsobj list \<Rightarrow> thrown + jsobj list"
  noMethodMessage :: "jsval \<Rightarrow> string"
  noPrimitiveMessage :: "jsval \<Rightarrow> string"

fun join :: "string \<Rightarrow> string list \<Rightarrow> string" where
  "join sep [] = []"
| "join sep [x] = x"
| "join sep (x # y # ys) = x @ sep @ join sep (y # ys)"

text \<open>
  The conversion of a value to a string. An array is the join of its elements. An object
  whose own properties do not include \<open>toString\<close> inherits the one of \<open>Object.prototype\<close>; an
  own \<open>toString\<close> of a parsed object is never a function, so neither it nor \<open>valueOf\<close> gives a
  primitive value and the conversion throws.
\<close>

fun to_string :: "host \<Rightarrow> jsval \<Rightarrow> thrown + string"
  and to_strings :: "host \<Rightarrow> jsval list \<Rightarrow> thrown + string list" where
  "to_string h JUndefined = Inr ''undefined''"
| "to_string h JNull = Inr ''null''"
| "to_string h (JBool b) = Inr (if b then ''true'' else ''false'')"
| "to_string h (JNum n) = Inr (numberToString h n)"
| "to_string h (JStr s) = Inr s"
| "to_string h (JArr xs) = (case to_strings h xs of
       Inl e \<Rightarrow> Inl e
     | Inr ss \<Rightarrow> Inr (join '','' ss))"
| "to_string h (JObj ps) =
     (if ''toString'' \<in> set (map fst ps) then Inl (TypeError (noPrimitiveMessage h (JObj ps)))
      else Inr ''[object Object]'')"
| "to_strings h [] = Inr []"
| "to_strings h (x # xs) =
     (case (if x = JUndefined \<or> x = JNull then Inr [] else to_string h x) of
        Inl e \<Rightarrow> Inl e
      | Inr s \<Rightarrow> (case to_strings h xs of
            Inl e \<Rightarrow> Inl e
          | Inr ss \<Rightarrow> Inr (s # ss)))"

subsection \<open>parseInt and slice\<close>

definition is_space :: "char \<Rightarrow> bool" where
  \<comment> \<open>white space and line terminators among the code units below 256\<close>
  "is_space c = ((of_char c :: nat) \<in> {9, 10, 11, 12, 13, 32, 160})"

definition digit_value :: "char \<Rightarrow> nat" where
  \<comment> \<open>the value of a digit or letter; 36 for every other code unit\<close>
  "digit_value c = (let n = (of_char c :: nat) in
     if 48 \<le> n \<and> n \<le> 57 then n - 48
     else if 97 \<le> n \<and> n \<le> 122 then n - 87
     else if 65 \<le> n \<and> n \<le> 90 then n - 55
     else 36)"

definition parse_int :: "string \<Rightarrow> jsnum" where
  \<comment> \<open>\<open>parseInt(s)\<close> of a string, no radix given; the digits are converted exactly (an engine
      may round a decimal numeral after its 20th significant digit)\<close>
  "parse_int s =
     (let s1 = dropWhile is_space s;
          neg = (take 1 s1 = ''-'');
          s2 = (if take 1 s1 = ''+'' \<or> take 1 s1 = ''-'' then drop 1 s1 else s1);
          hex = (take 2 s2 = ''0x'' \<or> take 2 s2 = ''0X'');
          s3 = (if hex then drop 2 s2 else s2);
          r = (if hex then 16 else 10);
          z = takeWhile (\<lambda>c. digit_value c < r) s3;
          m = foldl (\<lambda>a c. int r * a + int (digit_value c)) 0 z
      in if z = [] then NaN
         else if m = 0 then zero_of neg
         else to_double (of_int (if neg then - m else m)))"

definition parseInt :: "host \<Rightarrow> jsval \<Rightarrow> thrown + jsnum" where
  \<comment> \<open>\<open>parseInt(v)\<close>: the argument is converted to a string first\<close>
  "parseInt h v = (case to_string h v of Inl e \<Rightarrow> Inl e | Inr str \<Rightarrow> Inr (parse_int str))"

definition js_trunc :: "rat \<Rightarrow> int" where
  \<comment> \<open>rounding towards zero\<close>
  "js_trunc q = (if 0 \<le> q then \<lfloor>q\<rfloor> else \<lceil>q\<rceil>)"

definition slice_end :: "jsnum \<Rightarrow> nat \<Rightarrow> nat" where
  \<comment> \<open>the final index of \<open>slice(0, e)\<close> on an array of length \<open>len\<close>\<close>
  "slice_end e len = (case e of
       NaN \<Rightarrow> 0
     | NZero \<Rightarrow> 0
     | Infinity neg \<Rightarrow> (if neg then 0 else len)
     | Fin q \<Rightarrow> (let r = js_trunc q in
         if r < 0 then nat (max (int len + r) 0) else min (nat r) len))"

definition slice0 :: "jsnum \<Rightarrow> 'a list \<Rightarrow> 'a list" where
  "slice0 e xs = take (slice_end e (length xs)) xs"

section \<open>The store and the responses\<close>

record store =
  books :: "jsobj list"
  users :: "jsobj list"
  nextBookId :: jsnum
  nextUserId :: jsnum

record response =
  status :: nat
  payload :: jsval

definition json :: "nat \<Rightarrow> jsobj \<Rightarrow> response" where
  \<comment> \<open>\<open>res.status(st).json({...})\<close>\<close>
  "json st ps = \<lparr>status = st, payload = JObj ps\<rparr>"

definition book :: "rat \<Rightarrow> string \<Rightarrow> string \<Rightarrow> rat \<Rightarrow> string \<Rightarrow> jsobj" where
  "book i t a y g = [(''id'', JNum (Fin i)), (''title'', JStr t), (''author'', JStr a),
     (''year'', JNum (Fin y)), (''genre'', JStr g)]"

definition initial :: store where
  "initial = \<lparr>
     books = [
       book 1 ''The API Design Book'' ''RESTful Roy'' 2020 ''Technology'',
       book 2 ''HTTP: The Definitive Guide'' ''Web Walker'' 2019 ''Technology'',
       book 3 ''JavaScript Mastery'' ''Code Carter'' 2021 ''Programming'',
       book 4 ''The Art of REST'' ''API Andy'' 2022 ''Technology''],
     users = [
       [(''id'', JNum (Fin 1)), (''username'', JStr ''learner''),
        (''email'', JStr ''learner@api101.com''), (''role'', JStr ''student'')],
       [(''id'', JNum (Fin 2)), (''username'', JStr ''teacher''),
        (''email'', JStr ''teacher@api101.com''), (''role'', JStr ''admin'')]],
     nextBookId = Fin 5,
     nextUserId = Fin 3\<rparr>"

section \<open>GET /api/books\<close>

definition genre_matches :: "host \<Rightarrow> jsval \<Rightarrow> jsobj \<Rightarrow> thrown + bool" where
  \<comment> \<open>\<open>book.genre.toLowerCase() === req.query.genre.toLowerCase()\<close>, left operand first\<close>
  "genre_matches h g b = (case lookup b ''genre'' of
       JStr s \<Rightarrow> (case g of
           JStr t \<Rightarrow> Inr (toLowerCase h s = toLowerCase h t)
         | _ \<Rightarrow> Inl (TypeError (noMethodMessage h g)))
     | v \<Rightarrow> Inl (TypeError (noMethodMessage h v)))"

fun filter_books :: "(jsobj \<Rightarrow> thrown + bool) \<Rightarrow> jsobj list \<Rightarrow> thrown + jsobj list" where
  "filter_books p [] = Inr []"
| "filter_books p (b # bs) = (case p b of
       Inl e \<Rightarrow> Inl e
     | Inr keep \<Rightarrow> (case filter_books p bs of
           Inl e \<Rightarrow> Inl e
         | Inr r \<Rightarrow> Inr (if keep then b # r else r)))"

definition compare_by :: "host \<Rightarrow> jsval \<Rightarrow> jsobj \<Rightarrow> jsobj \<Rightarrow> thrown + int" where
  \<comment> \<open>the comparison function given to \<open>sort\<close>, for the value \<open>sortField\<close> of the query\<close>
  "compare_by h sortField a b = (case memberLess h sortField a b of
       Inl e \<Rightarrow> Inl e
     | Inr lt \<Rightarrow>
         if lt then Inr (- 1)
         else (case memberGreater h sortField a b of
             Inl e \<Rightarrow> Inl e
           | Inr gt \<Rightarrow> Inr (if gt then 1 else 0)))"

definition filtered_sorted :: "host \<Rightarrow> store \<Rightarrow> jsval \<Rightarrow> thrown + jsobj list" where
  \<comment> \<open>the copy of the collection after the \<open>genre\<close> filter and the \<open>sort\<close>\<close>
  "filtered_sorted h s query =
     (case (if truthy (get_prop query ''genre'')
            then filter_books (genre_matches h (get_prop query ''genre'')) (books s)
            else Inr (books s)) of
        Inl e \<Rightarrow> Inl e
      | Inr r \<Rightarrow>
          if truthy (get_prop query ''sort'')
          then arraySort h (compare_by h (get_prop query ''sort'')) r
          else Inr r)"

definition internal_error :: "thrown \<Rightarrow> response" where
  \<comment> \<open>the global error handler\<close>
  "internal_error e = (case e of TypeError message \<Rightarrow>
     json 500 [(''success'', JBool False), (''error'', JStr ''Internal server error''),
       (''message'', JStr message)])"

definition list_books :: "host \<Rightarrow> store \<Rightarrow> jsval \<Rightarrow> response" where
  "list_books h s query = (case filtered_sorted h s query of
       Inl e \<Rightarrow> internal_error e
     | Inr r \<Rightarrow>
         (case (if truthy (get_prop query ''limit'')
                then (case parseInt h (get_prop query ''limit'') of
                    Inl e \<Rightarrow> Inl e
                  | Inr n \<Rightarrow> Inr (slice0 n r))
                else Inr r) of
            Inl e \<Rightarrow> internal_error e
          | Inr result \<Rightarrow>
              json 200 [(''success'', JBool True),
                (''count'', JNum (Fin (of_nat (length result)))),
                (''queryParams'', query),
                (''data'', JArr (map JObj result))]))"

section \<open>The routes on one book\<close>

definition has_id :: "jsnum \<Rightarrow> jsobj \<Rightarrow> bool" where
  \<comment> \<open>\<open>b.id === bookId\<close>\<close>
  "has_id n b = strict_eq_num (lookup b ''id'') n"

fun find_index :: "('a \<Rightarrow> bool) \<Rightarrow> 'a list \<Rightarrow> nat option" where
  "find_index p [] = None"
| "find_index p (x # xs) = (if p x then Some 0 else map_option Suc (find_index p xs))"

definition not_found :: response where
  "not_found = json 404 [(''success'', JBool False), (''error'', JStr ''Book not found'')]"

definition get_book :: "host \<Rightarrow> store \<Rightarrow> string \<Rightarrow> response" where
  "get_book h s idp =
     (let bookId = parse_int idp in
      case find (has_id bookId) (books s) of
        None \<Rightarrow> json 404 [(''success'', JBool False), (''error'', JStr ''Book not found''),
            (''requestedId'', JNum bookId),
            (''tip'', JStr (''Try an ID between 1 and ''
                @ numberToString h (js_sub (nextBookId s) (Fin 1))))]
      | Some b \<Rightarrow> json 200 [(''success'', JBool True), (''pathParam'', JStr idp),
            (''data'', JObj b)])"

definition post_book :: "jsnum \<Rightarrow> store \<Rightarrow> jsval \<Rightarrow> response \<times> store" where
  \<comment> \<open>the first argument is \<open>new Date().getFullYear()\<close> at the time of the request\<close>
  "post_book thisYear s body =
     (let title = get_prop body ''title''; author = get_prop body ''author'';
          year = get_prop body ''year''; genre = get_prop body ''genre''
      in if \<not> truthy title \<or> \<not> truthy author
         then (json 400 [(''success'', JBool False), (''error'', JStr ''Missing required fields''),
                 (''required'', JArr [JStr ''title'', JStr ''author'']),
                 (''received'', body),
                 (''tip'', JStr (''Send a JSON body with at least '' @ [CHR 0x27] @ ''title''
                    @ [CHR 0x27] @ '' and '' @ [CHR 0x27] @ ''author'' @ [CHR 0x27]))], s)
         else
           let newBook = [(''id'', JNum (nextBookId s)),
                 (''title'', title),
                 (''author'', author),
                 (''year'', if truthy year then year else JNum thisYear),
                 (''genre'', if truthy genre then genre else JStr ''General'')]
           in (json 201 [(''success'', JBool True),
                 (''message'', JStr ''Book created successfully!''),
                 (''data'', JObj newBook)],
               s\<lparr>books := books s @ [newBook],
                 nextBookId := js_add (nextBookId s) (Fin 1)\<rparr>))"

definition put_book :: "store \<Rightarrow> string \<Rightarrow> jsval \<Rightarrow> response \<times> store" where
  "put_book s idp body =
     (let bookId = parse_int idp in
      case find_index (has_id bookId) (books s) of
        None \<Rightarrow> (not_found, s)
      | Some bookIndex \<Rightarrow>
          let title = get_prop body ''title''; author = get_prop body ''author'';
              year = get_prop body ''year''; genre = get_prop body ''genre''
          in if \<not> truthy title \<or> \<not> truthy author \<or> \<not> truthy year \<or> \<not> truthy genre
             then (json 400 [(''success'', JBool False),
                     (''error'', JStr ''PUT requires ALL fields (title, author, year, genre)''),
                     (''tip'', JStr ''Use PATCH if you only want to update some fields'')], s)
             else
               let replaced = [(''id'', JNum bookId), (''title'', title), (''author'', author),
                     (''year'', year), (''genre'', genre)]
               in (json 200 [(''success'', JBool True),
                     (''message'', JStr ''Book replaced completely!''),
                     (''method'', JStr ''PUT - Full replacement''),
                     (''data'', JObj replaced)],
                   s\<lparr>books := (books s)[bookIndex := replaced]\<rparr>))"

definition patch_book :: "store \<Rightarrow> string \<Rightarrow> jsval \<Rightarrow> response \<times> store" where
  "patch_book s idp body =
     (let bookId = parse_int idp in
      case find_index (has_id bookId) (books s) of
        None \<Rightarrow> (not_found, s)
      | Some bookIndex \<Rightarrow>
          let previousBook = spread [] (books s ! bookIndex);
              updated = set_prop ''id'' (JNum bookId)
                (spread (spread [] (books s ! bookIndex)) (own_props body))
          in (json 200 [(''success'', JBool True),
                (''message'', JStr ''Book updated!''),
                (''method'', JStr ''PATCH - Partial update''),
                (''previous'', JObj previousBook),
                (''updated'', JObj updated),
                (''fieldsChanged'', object_keys body)],
              s\<lparr>books := (books s)[bookIndex := updated]\<rparr>))"

definition delete_book :: "store \<Rightarrow> string \<Rightarrow> response \<times> store" where
  "delete_book s idp =
     (let bookId = parse_int idp in
      case find_index (has_id bookId) (books s) of
        None \<Rightarrow> (not_found, s)
      | Some bookIndex \<Rightarrow>
          let deletedBook = books s ! bookIndex
          in (json 200 [(''success'', JBool True),
                (''message'', JStr ''Book deleted successfully!''),
                (''deletedBook'', JObj deletedBook)],
              s\<lparr>books := take bookIndex (books s) @ drop (Suc bookIndex) (books s)\<rparr>))"

section \<open>GET /api/users\<close>

definition get_users :: "store \<Rightarrow> jsval \<Rightarrow> response" where
  \<comment> \<open>the second argument is \<open>req.headers\<close>, an object keyed by the lower-case header names\<close>
  "get_users s headers =
     (let authHeader = get_prop headers ''authorization'' in
      if \<not> truthy authHeader
      then json 401 [(''success'', JBool False),
             (''error'', JStr ''No authorization header provided''),
             (''tip'', JStr ''Add header: Authorization: Bearer secret-token-123'')]
      else if \<not> strict_eq_str authHeader ''Bearer secret-token-123''
      then json 403 [(''success'', JBool False),
             (''error'', JStr ''Invalid token''),
             (''received'', authHeader),
             (''expected'', JStr ''Bearer secret-token-123'')]
      else json 200 [(''success'', JBool True),
             (''message'', JStr ''Authentication successful!''),
             (''data'', JArr (map JObj (users s)))])"

section \<open>POST /api/calculate\<close>

definition calculate :: "host \<Rightarrow> jsval \<Rightarrow> response" where
  \<comment> \<open>in the formula, \<open>name\<close> is the string that \<open>operation\<close> was found equal to\<close>
  "calculate h body =
     (let operation = get_prop body ''operation''; a = get_prop body ''a''; b = get_prop body ''b'' in
      case (a, b) of
        (JNum x, JNum y) \<Rightarrow>
          let answer = (\<lambda>name result. json 200 [(''success'', JBool True),
                (''operation'', operation), (''a'', a), (''b'', b), (''result'', JNum result),
                (''formula'', JStr (numberToString h x @ '' '' @ name @ '' ''
                   @ numberToString h y @ '' = '' @ numberToString h result))])
          in if strict_eq_str operation ''add'' then answer ''add'' (js_add x y)
             else if strict_eq_str operation ''subtract'' then answer ''subtract'' (js_sub x y)
             else if strict_eq_str operation ''multiply'' then answer ''multiply'' (js_mul x y)
             else if strict_eq_str operation ''divide'' then
               (if num_eq y (Fin 0)
                then json 400 [(''success'', JBool False), (''error'', JStr ''Cannot divide by zero'')]
                else answer ''divide'' (js_div x y))
             else json 400 [(''success'', JBool False), (''error'', JStr ''Unknown operation''),
                (''validOperations'',
                   JArr [JStr ''add'', JStr ''subtract'', JStr ''multiply'', JStr ''divide''])]
      | _ \<Rightarrow> json 400 [(''success'', JBool False), (''error'', JStr ''a and b must be numbers''),
            (''received'', JObj [(''a'', JStr (typeof a)), (''b'', JStr (typeof b))])])"

section \<open>Requests and runs of the server\<close>

text \<open>
  The routes that read or write the collection of books, the user list and the calculator.
  Node runs one handler at a time, to completion, so a run of the server is a list of
  requests. \<open>PostBook\<close> carries the year of the clock at the time of the request.
\<close>

datatype request =
    ListBooks jsval
  | GetBook string
  | PostBook jsnum jsval
  | PutBook string jsval
  | PatchBook string jsval
  | DeleteBook string
  | GetUsers jsval
  | Calculate jsval

fun handle :: "host \<Rightarrow> request \<Rightarrow> store \<Rightarrow> response \<times> store" where
  "handle h (ListBooks query) s = (list_books h s query, s)"
| "handle h (GetBook idp) s = (get_book h s idp, s)"
| "handle h (PostBook thisYear body) s = post_book thisYear s body"
| "handle h (PutBook idp body) s = put_book s idp body"
| "handle h (PatchBook idp body) s = patch_book s idp body"
| "handle h (DeleteBook idp) s = delete_book s idp"
| "handle h (GetUsers headers) s = (get_users s headers, s)"
| "handle h (Calculate body) s = (calculate h body, s)"

fun run :: "host \<Rightarrow> request list \<Rightarrow> store \<Rightarrow> store" where
  "run h [] s = s"
| "run h (rq # rqs) s = run h rqs (snd (handle h rq s))"

section \<open>The invariant of the collection\<close>

definition id_below :: "rat \<Rightarrow> jsobj \<Rightarrow> bool" where
  "id_below c b = (case lookup b ''id'' of JNum (Fin i) \<Rightarrow> 0 < i \<and> i < c | _ \<Rightarrow> False)"

definition store_inv :: "store \<Rightarrow> bool" where
  \<comment> \<open>the counter is a positive whole number, every identifier is a positive number below it,
      and no two books share an identifier\<close>
  "store_inv s = (case nextBookId s of
       Fin c \<Rightarrow> 0 < c \<and> c = of_int \<lfloor>c\<rfloor> \<and> list_all (id_below c) (books s)
         \<and> distinct (map (\<lambda>b. lookup b ''id'') (books s))
     | _ \<Rightarrow> False)"

definition wf_store :: "store \<Rightarrow> bool" where
  \<comment> \<open>no book has two properties of the same name\<close>
  "wf_store s = list_all (\<lambda>b. distinct (map fst b)) (books s)"

definition id_of :: "jsobj \<Rightarrow> rat" where
  "id_of b = (case lookup b ''id'' of JNum (Fin i) \<Rightarrow> i | _ \<Rightarrow> 0)"

definition max_id :: "jsobj list \<Rightarrow> rat" where
  \<comment> \<open>the greatest identifier among the books, 0 for the empty collection\<close>
  "max_id bs = fold max (map id_of bs) 0"

definition int_value :: "jsnum \<Rightarrow> int option" where
  \<comment> \<open>the integer a number stands for, if it does; both zeros stand for 0\<close>
  "int_value n = (case n of
       NZero \<Rightarrow> Some 0
     | Fin q \<Rightarrow> (if q = of_int \<lfloor>q\<rfloor> then Some \<lfloor>q\<rfloor> else None)
     | _ \<Rightarrow> None)"

section \<open>A host for the examples\<close>

text \<open>
  The examples below run on the seeded store with a host that renders whole numbers,
  lower-cases the letters A to Z and sorts by stable insertion. Its comparison reads the
  members as own properties under a string key: it throws when one of the two has no
  primitive value (an object with an own \<open>toString\<close>, which is no function in a parsed value),
  compares two numbers or two strings, and answers false on the other pairs, which no
  example sorts.
\<close>

fun str_less :: "string \<Rightarrow> string \<Rightarrow> bool" where
  "str_less [] [] = False"
| "str_less [] (y # ys) = True"
| "str_less (x # xs) [] = False"
| "str_less (x # xs) (y # ys) =
     ((of_char x :: nat) < of_char y \<or> (x = y \<and> str_less xs ys))"

definition num_less :: "jsnum \<Rightarrow> jsnum \<Rightarrow> bool" where
  "num_less a b = (case (a, b) of
       (NaN, _) \<Rightarrow> False
     | (_, NaN) \<Rightarrow> False
     | (Infinity s, Infinity t) \<Rightarrow> s \<and> \<not> t
     | (Infinity s, _) \<Rightarrow> s
     | (_, Infinity t) \<Rightarrow> \<not> t
     | _ \<Rightarrow> the_rat a < the_rat b)"

fun no_primitive :: "jsval \<Rightarrow> bool" where
  "no_primitive (JObj ps) = (''toString'' \<in> set (map fst ps))"
| "no_primitive (JArr xs) = (\<exists>x\<in>set xs. no_primitive x)"
| "no_primitive v = False"

definition sample_less :: "jsval \<Rightarrow> jsobj \<Rightarrow> jsobj \<Rightarrow> thrown + bool" where
  "sample_less k a b = (case k of
       JStr f \<Rightarrow>
         if no_primitive (lookup a f) \<or> no_primitive (lookup b f)
         then Inl (TypeError ''Cannot convert object to primitive value'')
         else Inr (case (lookup a f, lookup b f) of
             (JNum x, JNum y) \<Rightarrow> num_less x y
           | (JStr x, JStr y) \<Rightarrow> str_less x y
           | _ \<Rightarrow> False)
     | _ \<Rightarrow> Inr False)"

fun insert_by :: "('a \<Rightarrow> 'a \<Rightarrow> thrown + int) \<Rightarrow> 'a \<Rightarrow> 'a list \<Rightarrow> thrown + 'a list" where
  "insert_by cmp x [] = Inr [x]"
| "insert_by cmp x (y # ys) = (case cmp x y of
       Inl e \<Rightarrow> Inl e
     | Inr c \<Rightarrow>
         if c \<le> 0 then Inr (x # y # ys)
         else (case insert_by cmp x ys of Inl e \<Rightarrow> Inl e | Inr r \<Rightarrow> Inr (y # r)))"

fun sort_by :: "('a \<Rightarrow> 'a \<Rightarrow> thrown + int) \<Rightarrow> 'a list \<Rightarrow> thrown + 'a list" where
  "sort_by cmp [] = Inr []"
| "sort_by cmp (x # xs) = (case sort_by cmp xs of
       Inl e \<Rightarrow> Inl e
     | Inr r \<Rightarrow> insert_by cmp x r)"

definition sample_host :: host where
  "sample_host = \<lparr>
     numberToString = (\<lambda>n. case n of
         NaN \<Rightarrow> ''NaN''
       | Infinity neg \<Rightarrow> (if neg then ''-Infinity'' else ''Infinity'')
       | NZero \<Rightarrow> ''0''
       | Fin q \<Rightarrow> (if q < 0 then ''-'' else []) @ show_nat (nat \<lfloor>\<bar>q\<bar>\<rfloor>)),
     toLowerCase = map (\<lambda>c. if 65 \<le> (of_char c :: nat) \<and> (of_char c :: nat) \<le> 90
         then char_of ((of_char c :: nat) + 32) else c),
     memberLess = sample_less,
     memberGreater = (\<lambda>k a b. sample_less k b a),
     arraySort = sort_by,
     noMethodMessage = (\<lambda>v. ''toLowerCase is not a function''),
     noPrimitiveMessage = (\<lambda>v. ''Cannot convert object to primitive value'')\<rparr>"

section \<open>Lemmas on objects, lists and numbers\<close>

lemma map_of_insert_prop:
  "k \<notin> set (map fst ps) \<Longrightarrow> map_of (insert_prop k v ps) = (map_of ps)(k \<mapsto> v)"
  by (induction ps) (auto simp: fun_eq_iff)

lemma key_in_keys: "(k, v) \<in> set ps \<Longrightarrow> k \<in> fst ` set ps"
  by force

lemma map_of_update_prop:
  "map_of (map (\<lambda>p. if fst p = k then (k, v) else p) ps) x =
     (if x = k then (if k \<in> set (map fst ps) then Some v else None) else map_of ps x)"
  by (induction ps) (auto simp: key_in_keys)

lemma map_of_set_prop: "map_of (set_prop k v ps) = (map_of ps)(k \<mapsto> v)"
  by (auto simp: set_prop_def map_of_insert_prop map_of_update_prop fun_eq_iff)

lemma set_insert_prop: "set (insert_prop k v ps) = insert (k, v) (set ps)"
  by (induction ps) (auto split: if_splits)

lemma keys_insert_prop: "set (map fst (insert_prop k v ps)) = insert k (set (map fst ps))"
  by (simp add: set_insert_prop)

lemma distinct_insert_prop:
  "distinct (map fst ps) \<Longrightarrow> k \<notin> set (map fst ps) \<Longrightarrow> distinct (map fst (insert_prop k v ps))"
proof (induction ps)
  case Nil
  show ?case by simp
next
  case (Cons p ps)
  have "fst p \<notin> set (map fst (insert_prop k v ps))"
    using Cons.prems unfolding keys_insert_prop by auto
  with Cons show ?case
    by (cases p) auto
qed

lemma keys_update_prop: "map fst (map (\<lambda>p. if fst p = k then (k, v) else p) ps) = map fst ps"
  by (induction ps) auto

lemma distinct_set_prop: "distinct (map fst ps) \<Longrightarrow> distinct (map fst (set_prop k v ps))"
proof (cases "k \<in> set (map fst ps)")
  case True
  assume "distinct (map fst ps)"
  with True show ?thesis
    unfolding set_prop_def by (simp only: keys_update_prop if_True)
next
  case False
  assume "distinct (map fst ps)"
  with False show ?thesis
    unfolding set_prop_def by (simp add: distinct_insert_prop)
qed

lemma distinct_spread: "distinct (map fst ps) \<Longrightarrow> distinct (map fst (spread ps qs))"
  unfolding spread_def
  by (induction qs arbitrary: ps) (auto simp: distinct_set_prop)

lemma map_of_rev_distinct: "distinct (map fst ps) \<Longrightarrow> map_of (rev ps) = map_of ps"
  by (rule ext) (metis distinct_rev map_of_eq_None_iff map_of_is_SomeI not_Some_eq
      option.exhaust rev_map set_rev map_of_SomeD)

lemma map_of_spread: "map_of (spread ps qs) = map_of ps ++ map_of (rev qs)"
  unfolding spread_def
proof (induction qs arbitrary: ps)
  case Nil
  show ?case by simp
next
  case (Cons q qs)
  obtain k v where q: "q = (k, v)" by (cases q)
  show ?case
    by (simp add: q Cons.IH map_of_set_prop fun_eq_iff map_add_def split: option.splits)
qed

lemma lookup_set_prop: "lookup (set_prop k v ps) k' = (if k' = k then v else lookup ps k')"
  by (simp add: lookup_def map_of_set_prop)

lemma find_index_Some:
  "find_index p xs = Some i \<Longrightarrow> i < length xs \<and> p (xs ! i) \<and> (\<forall>j<i. \<not> p (xs ! j))"
proof (induction xs arbitrary: i)
  case Nil
  then show ?case by simp
next
  case (Cons x xs)
  show ?case
  proof (cases "p x")
    case True
    with Cons.prems show ?thesis by simp
  next
    case False
    with Cons.prems obtain i' where i': "find_index p xs = Some i'" "i = Suc i'"
      by auto
    from Cons.IH [OF i'(1)] False i'(2) show ?thesis
      by (auto simp: less_Suc_eq_0_disj)
  qed
qed

lemma find_index_None: "find_index p xs = None \<longleftrightarrow> (\<forall>x\<in>set xs. \<not> p x)"
  by (induction xs) auto

lemma find_index_find:
  "find_index p xs = Some i \<Longrightarrow> find p xs = Some (xs ! i)"
  by (induction xs arbitrary: i) (auto split: if_splits)

lemma round_half_even_int: "round_half_even (of_int m) = m"
  by (simp add: round_half_even_def)

lemma ilog2_int_le:
  assumes "0 < k" "k < 2 ^ 53"
  shows "ilog2 (of_int k) \<le> 52"
proof -
  have "2 ^ nat (bitlen k - 1) \<le> k"
    using bitlen_bounds [OF assms(1)] by simp
  with assms(2) have "(2::int) ^ nat (bitlen k - 1) < 2 ^ 53" by linarith
  then have "nat (bitlen k - 1) < 53"
    by (rule power_less_imp_less_exp [rotated]) simp
  then have "bitlen k - 1 \<le> 52" by linarith
  moreover have "bitlen 1 = 1"
    by (simp add: bitlen_alt_def)
  ultimately show ?thesis
    by (simp add: ilog2_def Let_def)
qed

lemma to_double_whole:
  assumes "k \<noteq> 0" "\<bar>k\<bar> < 2 ^ 53"
  shows "to_double (of_int k) = Fin (of_int k)"
proof -
  define m where "m = \<bar>k\<bar>"
  have m: "0 < m" "m < 2 ^ 53"
    using assms by (simp_all add: m_def)
  define e where "e = max (ilog2 (of_int m)) (- 1022)"
  have e: "e \<le> 52" "- 1022 \<le> e"
    using ilog2_int_le [OF m] by (simp_all add: e_def)
  define d where "d = nat (52 - e)"
  have u: "pow2 (e - 52) = 1 / 2 ^ d"
    using e by (auto simp: pow2_def d_def)
  have "rat_of_int m / (1 / 2 ^ d) = of_int (m * 2 ^ d)"
    by simp
  then have n: "round_half_even (rat_of_int m / (1 / 2 ^ d)) = m * 2 ^ d"
    by (simp only: round_half_even_int)
  have v: "rat_of_int (m * 2 ^ d) * (1 / 2 ^ d) = of_int m"
    by simp
  have small: "\<not> pow2 1024 \<le> rat_of_int m"
  proof -
    have "rat_of_int m < of_int (2 ^ 53)" using m(2) by (simp only: of_int_less_iff)
    also have "\<dots> \<le> pow2 1024" by (simp add: pow2_def)
    finally show ?thesis by simp
  qed
  have abs: "\<bar>rat_of_int k\<bar> = of_int m"
    by (simp add: m_def)
  have "to_double (of_int k) =
      (if rat_of_int k = 0 then Fin 0
       else if pow2 1024 \<le> of_int m then Infinity (rat_of_int k < 0)
       else if m * 2 ^ d = 0 then zero_of (rat_of_int k < 0)
       else Fin (if rat_of_int k < 0 then - of_int m else of_int m))"
    unfolding to_double_def Let_def abs e_def [symmetric] u n v ..
  with assms(1) m(1) small show ?thesis
    by (auto simp: m_def)
qed

lemma to_double_numeral:
  "(numeral w :: int) < 2 ^ 53 \<Longrightarrow> to_double (numeral w) = Fin (numeral w)"
  using to_double_whole [of "numeral w"] by simp

lemma to_double_neg_numeral:
  "(numeral w :: int) < 2 ^ 53 \<Longrightarrow> to_double (- numeral w) = Fin (- numeral w)"
  using to_double_whole [of "- numeral w"] by simp

lemma to_double_one: "to_double 1 = Fin 1"
  using to_double_whole [of 1] by simp

lemma to_double_neg_one: "to_double (- 1) = Fin (- 1)"
  using to_double_whole [of "- 1"] by simp

lemmas eval_parse_int = parse_int_def is_space_def digit_value_def Let_def zero_of_def
  to_double_numeral to_double_neg_numeral to_double_one to_double_neg_one

lemma status_json: "status (json st ps) = st"
  by (simp add: json_def)

lemma payload_json: "payload (json st ps) = JObj ps"
  by (simp add: json_def)

lemma get_prop_JObj: "get_prop (JObj ps) k = lookup ps k"
  by (simp add: get_prop_def own_props_def)





section \<open>The decimal numeral of an identifier parses to it\<close>

lemma of_char_digit_char: "d < 10 \<Longrightarrow> (of_char (digit_char d) :: nat) = 48 + d"
  by (simp add: digit_char_def)

lemma digit_value_digit_char: "d < 10 \<Longrightarrow> digit_value (digit_char d) = d"
  by (simp add: digit_value_def of_char_digit_char Let_def)

lemma not_space_digit_char: "d < 10 \<Longrightarrow> \<not> is_space (digit_char d)"
  by (auto simp: is_space_def of_char_digit_char)

lemma digit_char_neq:
  assumes "d < 10"
  shows "digit_char d \<noteq> CHR ''-''" "digit_char d \<noteq> CHR ''+''" "digit_char d \<noteq> CHR ''x''"
    "digit_char d \<noteq> CHR ''X''"
proof -
  have "(of_char (digit_char d) :: nat) \<noteq> of_char c" if "(of_char c :: nat) < 48 \<or> 57 < (of_char c :: nat)" for c
    using that assms by (auto simp: of_char_digit_char)
  then have "digit_char d \<noteq> c" if "(of_char c :: nat) < 48 \<or> 57 < (of_char c :: nat)" for c
    using that by auto
  then show "digit_char d \<noteq> CHR ''-''" "digit_char d \<noteq> CHR ''+''" "digit_char d \<noteq> CHR ''x''"
    "digit_char d \<noteq> CHR ''X''"
    by simp_all
qed

lemma show_nat_digits:
  "\<exists>d ds. show_nat n = digit_char d # ds \<and> d < 10
     \<and> (\<forall>c\<in>set ds. \<exists>e<10. c = digit_char e)"
proof (induction n rule: show_nat.induct)
  case (1 n)
  show ?case
  proof (cases "n < 10")
    case True
    then show ?thesis
      by (subst show_nat.simps) auto
  next
    case False
    from "1.IH" [OF False] obtain d ds where
      ds: "show_nat (n div 10) = digit_char d # ds" "d < 10"
        "\<forall>c\<in>set ds. \<exists>e<10. c = digit_char e"
      by blast
    have "show_nat n = digit_char d # (ds @ [digit_char (n mod 10)])"
      using False ds(1) by (subst show_nat.simps) simp
    moreover have "\<forall>c\<in>set (ds @ [digit_char (n mod 10)]). \<exists>e<10. c = digit_char e"
      using ds(3) by (auto intro: exI [of _ "n mod 10"])
    ultimately show ?thesis
      using ds(2) by blast
  qed
qed

lemma show_nat_value:
  "foldl (\<lambda>a c. int 10 * a + int (digit_value c)) 0 (show_nat n) = int n"
proof (induction n rule: show_nat.induct)
  case (1 n)
  show ?case
  proof (cases "n < 10")
    case True
    then show ?thesis
      by (subst show_nat.simps) (simp add: digit_value_digit_char)
  next
    case False
    have "foldl (\<lambda>a c. int 10 * a + int (digit_value c)) 0 (show_nat n) =
        int 10 * int (n div 10) + int (n mod 10)"
      using False "1.IH" [OF False]
      by (subst show_nat.simps) (simp add: digit_value_digit_char)
    moreover have "int (10 * (n div 10) + n mod 10) = int n"
      by (simp only: div_mult_mod_eq mult.commute [of 10] mult_div_mod_eq)
    then have "int 10 * int (n div 10) + int (n mod 10) = int n"
      by (simp only: of_nat_add of_nat_mult)
    ultimately show ?thesis
      by (simp only:)
  qed
qed

lemma parse_int_show_nat:
  assumes "0 < n" "int n < 2 ^ 53"
  shows "parse_int (show_nat n) = Fin (of_nat n)"
proof -
  from show_nat_digits [of n] obtain d ds where
    s: "show_nat n = digit_char d # ds" and d: "d < 10"
    and ds: "\<forall>c\<in>set ds. \<exists>e<10. c = digit_char e"
    by blast
  have all: "\<forall>c\<in>set (show_nat n). digit_value c < 10"
    using d ds by (auto simp: s digit_value_digit_char)
  have s1: "dropWhile is_space (show_nat n) = show_nat n"
    by (simp add: s not_space_digit_char [OF d])
  have sign: "take 1 (show_nat n) \<noteq> ''-''" "take 1 (show_nat n) \<noteq> ''+''"
    by (simp_all add: s digit_char_neq [OF d])
  have hex: "take 2 (show_nat n) \<noteq> ''0x''" "take 2 (show_nat n) \<noteq> ''0X''"
  proof -
    have "take 2 (show_nat n) \<noteq> [c, x]" if "x = CHR ''x'' \<or> x = CHR ''X''" for c x
    proof (cases ds)
      case Nil
      then show ?thesis by (simp add: s)
    next
      case (Cons e es)
      with ds obtain k where "k < 10" "e = digit_char k" by auto
      with that show ?thesis
        using digit_char_neq(3,4) [of k] by (auto simp: s Cons)
    qed
    then show "take 2 (show_nat n) \<noteq> ''0x''" "take 2 (show_nat n) \<noteq> ''0X''"
      by simp_all
  qed
  have z: "takeWhile (\<lambda>c. digit_value c < 10) (show_nat n) = show_nat n"
    using all by (simp add: takeWhile_eq_all_conv)
  have ne: "show_nat n \<noteq> []"
    by (simp add: s)
  have k: "int n \<noteq> 0" "\<bar>int n\<bar> < 2 ^ 53"
    using assms by simp_all
  from to_double_whole [OF k] have t: "to_double (rat_of_nat n) = Fin (rat_of_nat n)"
    by simp
  have v: "foldl (\<lambda>a c. int 10 * a + int (digit_value c)) 0 (show_nat n) = int n"
    by (rule show_nat_value)
  show ?thesis
    unfolding parse_int_def Let_def s1
    using sign hex ne assms(1) by (simp add: z v t del: of_nat_numeral)
qed

section \<open>Lemmas on identifiers\<close>


lemma has_id_not_nan: "has_id n b \<Longrightarrow> num_eq n n"
  by (auto simp: has_id_def strict_eq_num_def num_eq_def split: jsval.splits)

lemma has_id_JNum: "lookup b ''id'' = JNum n \<Longrightarrow> has_id n b = num_eq n n"
  by (simp add: has_id_def strict_eq_num_def)

lemma id_belowD: "id_below c b \<Longrightarrow> \<exists>i. lookup b ''id'' = JNum (Fin i) \<and> 0 < i \<and> i < c"
  by (auto simp: id_below_def split: jsval.splits jsnum.splits)

lemma id_below_lookup: "lookup b' ''id'' = lookup b ''id'' \<Longrightarrow> id_below c b' = id_below c b"
  by (simp add: id_below_def)

lemma has_id_Fin: "lookup b ''id'' = JNum (Fin i) \<Longrightarrow> 0 < i \<Longrightarrow> has_id n b \<longleftrightarrow> n = Fin i"
  by (cases n) (auto simp: has_id_def strict_eq_num_def num_eq_def is_nan_def is_zero_def)

lemma id_below_has_id:
  assumes "id_below c b" "has_id n b"
  shows "lookup b ''id'' = JNum n"
proof -
  from id_belowD [OF assms(1)] obtain i where i: "lookup b ''id'' = JNum (Fin i)" "0 < i"
    by blast
  with assms(2) have "n = Fin i" by (simp add: has_id_Fin)
  with i show ?thesis by simp
qed

lemma id_below_not_counter:
  assumes "id_below c b"
  shows "\<not> has_id (Fin c) b"
proof -
  from id_belowD [OF assms] obtain i where i: "lookup b ''id'' = JNum (Fin i)" "0 < i" "i < c"
    by blast
  then show ?thesis by (simp add: has_id_Fin)
qed

lemma find_append:
  "find p (xs @ ys) = (case find p xs of None \<Rightarrow> find p ys | Some x \<Rightarrow> Some x)"
  by (induction xs) auto

lemma find_index_update:
  "find_index p xs = Some i \<Longrightarrow> p y \<Longrightarrow> find_index p (xs[i := y]) = Some i"
proof (induction xs arbitrary: i)
  case Nil
  then show ?case by simp
next
  case (Cons x xs)
  show ?case
  proof (cases "p x")
    case True
    with Cons.prems show ?thesis by simp
  next
    case False
    with Cons.prems obtain i' where i': "find_index p xs = Some i'" "i = Suc i'"
      by auto
    from Cons.IH [OF i'(1) Cons.prems(2)] False i'(2) show ?thesis
      by simp
  qed
qed

lemma find_index_present: "\<exists>x\<in>set xs. p x \<Longrightarrow> \<exists>i. find_index p xs = Some i"
  using find_index_None [of p xs] by (cases "find_index p xs") auto

lemma invD:
  assumes "store_inv s"
  obtains c where "nextBookId s = Fin c" "0 < c" "c = of_int \<lfloor>c\<rfloor>"
    "\<forall>b\<in>set (books s). id_below c b" "distinct (map (\<lambda>b. lookup b ''id'') (books s))"
  using assms by (auto simp: store_inv_def list_all_iff split: jsnum.splits)

lemma first_match_only:
  assumes inv: "store_inv s" and i: "find_index (has_id n) (books s) = Some i"
  shows "\<forall>b\<in>set (take i (books s) @ drop (Suc i) (books s)). \<not> has_id n b"
proof
  fix b assume b: "b \<in> set (take i (books s) @ drop (Suc i) (books s))"
  from inv obtain c where below: "\<forall>b\<in>set (books s). id_below c b"
    and dist: "distinct (map (\<lambda>b. lookup b ''id'') (books s))"
    by (rule invD)
  from find_index_Some [OF i] have il: "i < length (books s)" and hit: "has_id n (books s ! i)"
    and first: "\<forall>j<i. \<not> has_id n (books s ! j)" by auto
  from b obtain j where j: "j < length (books s)" "j \<noteq> i" "b = books s ! j"
  proof (cases "b \<in> set (take i (books s))")
    case True
    then obtain j where "j < length (take i (books s))" "b = take i (books s) ! j"
      by (auto simp: in_set_conv_nth)
    with il that [of j] show ?thesis by simp
  next
    case False
    with b have "b \<in> set (drop (Suc i) (books s))" by simp
    then obtain j where "j < length (drop (Suc i) (books s))" "b = drop (Suc i) (books s) ! j"
      by (auto simp: in_set_conv_nth)
    with il that [of "Suc i + j"] show ?thesis by simp
  qed
  show "\<not> has_id n b"
  proof
    assume hb: "has_id n b"
    from below j il have "id_below c b" "id_below c (books s ! i)" by auto
    with hb hit have "lookup b ''id'' = lookup (books s ! i) ''id''"
      by (simp add: id_below_has_id)
    with dist j il have "j = i"
      by (simp add: distinct_conv_nth)
    with j show False by simp
  qed
qed

section \<open>Lemmas on the routes\<close>

lemma get_book_found:
  "find_index (has_id (parse_int idp)) (books s) = Some i \<Longrightarrow>
     get_book h s idp = json 200 [(''success'', JBool True), (''pathParam'', JStr idp),
       (''data'', JObj (books s ! i))]"
  by (simp add: get_book_def find_index_find)

lemma get_book_absent:
  "\<forall>b\<in>set (books s). \<not> has_id (parse_int idp) b \<Longrightarrow>
     status (get_book h s idp) = 404
     \<and> get_prop (payload (get_book h s idp)) ''error'' = JStr ''Book not found''"
proof -
  assume "\<forall>b\<in>set (books s). \<not> has_id (parse_int idp) b"
  then have "find (has_id (parse_int idp)) (books s) = None"
    by (simp add: find_None_iff)
  then show ?thesis
    by (simp add: get_book_def status_json payload_json get_prop_JObj lookup_def)
qed

lemma absent_unchanged:
  assumes "\<forall>b\<in>set (books s). \<not> has_id (parse_int idp) b"
  shows "put_book s idp body = (not_found, s)" "patch_book s idp body = (not_found, s)"
    "delete_book s idp = (not_found, s)"
proof -
  from assms have "find_index (has_id (parse_int idp)) (books s) = None"
    by (simp add: find_index_None)
  then show "put_book s idp body = (not_found, s)" "patch_book s idp body = (not_found, s)"
    "delete_book s idp = (not_found, s)"
    by (simp_all add: put_book_def patch_book_def delete_book_def)
qed

lemma not_found_response:
  "status not_found = 404" "get_prop (payload not_found) ''error'' = JStr ''Book not found''"
  by (simp_all add: not_found_def status_json payload_json get_prop_JObj lookup_def)

lemma delete_book_present:
  "find_index (has_id (parse_int idp)) (books s) = Some i \<Longrightarrow>
     delete_book s idp = (json 200 [(''success'', JBool True),
         (''message'', JStr ''Book deleted successfully!''),
         (''deletedBook'', JObj (books s ! i))],
       s\<lparr>books := take i (books s) @ drop (Suc i) (books s)\<rparr>)"
  by (simp add: delete_book_def)

lemma post_book_valid_eq:
  assumes "truthy (get_prop body ''title'')" "truthy (get_prop body ''author'')"
  shows "post_book y s body =
    (json 201 [(''success'', JBool True), (''message'', JStr ''Book created successfully!''),
       (''data'', JObj [(''id'', JNum (nextBookId s)),
          (''title'', get_prop body ''title''),
          (''author'', get_prop body ''author''),
          (''year'', if truthy (get_prop body ''year'') then get_prop body ''year'' else JNum y),
          (''genre'', if truthy (get_prop body ''genre'') then get_prop body ''genre''
             else JStr ''General'')])],
     s\<lparr>books := books s @ [[(''id'', JNum (nextBookId s)),
          (''title'', get_prop body ''title''),
          (''author'', get_prop body ''author''),
          (''year'', if truthy (get_prop body ''year'') then get_prop body ''year'' else JNum y),
          (''genre'', if truthy (get_prop body ''genre'') then get_prop body ''genre''
             else JStr ''General'')]],
        nextBookId := js_add (nextBookId s) (Fin 1)\<rparr>)"
  using assms by (simp add: post_book_def Let_def)

lemma post_book_invalid:
  "\<not> truthy (get_prop body ''title'') \<or> \<not> truthy (get_prop body ''author'') \<Longrightarrow>
     status (fst (post_book y s body)) = 400 \<and> snd (post_book y s body) = s"
  by (auto simp: post_book_def Let_def status_json)

lemma get_prop_absent: "k \<notin> set (map fst (own_props body)) \<Longrightarrow> get_prop body k = JUndefined"
  by (simp add: get_prop_def lookup_def map_of_eq_None_iff [THEN iffD2])

lemma not_truthy_undefined: "\<not> truthy JUndefined"
  by (simp add: truthy_def)

lemmas eval_store = initial_def book_def has_id_def lookup_def strict_eq_num_def num_eq_def
  is_nan_def is_zero_def get_prop_JObj status_json payload_json truthy_def

lemma initial_inv: "store_inv initial"
  by (simp add: store_inv_def initial_def book_def id_below_def lookup_def)

lemma put_book_present:
  assumes "find_index (has_id (parse_int idp)) (books s) = Some i"
  shows "put_book s idp body =
    (if \<not> truthy (get_prop body ''title'') \<or> \<not> truthy (get_prop body ''author'')
        \<or> \<not> truthy (get_prop body ''year'') \<or> \<not> truthy (get_prop body ''genre'')
     then (json 400 [(''success'', JBool False),
             (''error'', JStr ''PUT requires ALL fields (title, author, year, genre)''),
             (''tip'', JStr ''Use PATCH if you only want to update some fields'')], s)
     else (json 200 [(''success'', JBool True),
             (''message'', JStr ''Book replaced completely!''),
             (''method'', JStr ''PUT - Full replacement''),
             (''data'', JObj [(''id'', JNum (parse_int idp)),
                (''title'', get_prop body ''title''), (''author'', get_prop body ''author''),
                (''year'', get_prop body ''year''), (''genre'', get_prop body ''genre'')])],
           s\<lparr>books := (books s)[i := [(''id'', JNum (parse_int idp)),
                (''title'', get_prop body ''title''), (''author'', get_prop body ''author''),
                (''year'', get_prop body ''year''), (''genre'', get_prop body ''genre'')]]\<rparr>))"
  by (simp add: put_book_def assms Let_def)

lemma get_after_update:
  assumes i: "find_index (has_id (parse_int idp)) (books s) = Some i"
    and nb: "lookup nb ''id'' = JNum (parse_int idp)"
  shows "get_book h (s\<lparr>books := (books s)[i := nb]\<rparr>) idp =
    json 200 [(''success'', JBool True), (''pathParam'', JStr idp), (''data'', JObj nb)]"
proof -
  from find_index_Some [OF i] have il: "i < length (books s)"
    and hit: "has_id (parse_int idp) (books s ! i)" by auto
  have "has_id (parse_int idp) nb"
    using has_id_not_nan [OF hit] by (simp add: has_id_JNum [OF nb])
  from find_index_update [OF i this]
  have "find_index (has_id (parse_int idp)) (books (s\<lparr>books := (books s)[i := nb]\<rparr>)) = Some i"
    by simp
  from get_book_found [OF this, of h] il show ?thesis
    by simp
qed

lemma lookup_spread:
  "lookup (spread ps qs) k = (case map_of (rev qs) k of Some v \<Rightarrow> v | None \<Rightarrow> lookup ps k)"
  by (simp add: lookup_def map_of_spread map_add_def split: option.splits)

lemma lookup_copy: "distinct (map fst ps) \<Longrightarrow> lookup (spread [] ps) k = lookup ps k"
  unfolding lookup_spread by (simp add: map_of_rev_distinct lookup_def split: option.splits)

lemma patch_book_present:
  assumes "find_index (has_id (parse_int idp)) (books s) = Some i"
  shows "patch_book s idp body =
    (json 200 [(''success'', JBool True),
        (''message'', JStr ''Book updated!''),
        (''method'', JStr ''PATCH - Partial update''),
        (''previous'', JObj (spread [] (books s ! i))),
        (''updated'', JObj (set_prop ''id'' (JNum (parse_int idp))
           (spread (spread [] (books s ! i)) (own_props body)))),
        (''fieldsChanged'', object_keys body)],
      s\<lparr>books := (books s)[i := set_prop ''id'' (JNum (parse_int idp))
           (spread (spread [] (books s ! i)) (own_props body))]\<rparr>)"
  by (simp add: patch_book_def assms Let_def)

lemma wf_storeD: "wf_store s \<Longrightarrow> i < length (books s) \<Longrightarrow> distinct (map fst (books s ! i))"
  by (simp add: wf_store_def list_all_length)

lemma initial_wf: "wf_store initial"
  by (simp add: wf_store_def initial_def book_def)

lemma list_books_unlimited:
  assumes "filtered_sorted h s query = Inr r" "\<not> truthy (get_prop query ''limit'')"
  shows "list_books h s query = json 200 [(''success'', JBool True),
      (''count'', JNum (Fin (of_nat (length r)))),
      (''queryParams'', query),
      (''data'', JArr (map JObj r))]"
  by (simp add: list_books_def assms)

lemma list_books_limited:
  assumes "filtered_sorted h s query = Inr r" "truthy (get_prop query ''limit'')"
    "parseInt h (get_prop query ''limit'') = Inr n"
  shows "list_books h s query = json 200 [(''success'', JBool True),
      (''count'', JNum (Fin (of_nat (length (slice0 n r))))),
      (''queryParams'', query),
      (''data'', JArr (map JObj (slice0 n r)))]"
  by (simp add: list_books_def assms)

lemma parseInt_JStr: "parseInt h (JStr l) = Inr (parse_int l)"
  by (simp add: parseInt_def)

lemma parse_int_empty: "parse_int [] = NaN"
  by (simp add: parse_int_def)

lemma parse_int_not_numeral:
  assumes "\<not> is_space c" "c \<noteq> CHR ''+''" "c \<noteq> CHR ''-''" "10 \<le> digit_value c"
  shows "parse_int (c # cs) = NaN"
proof -
  have "c \<noteq> CHR ''0''"
    using assms(4) by (auto simp: digit_value_def)
  with assms show ?thesis
    by (simp add: parse_int_def Let_def)
qed

lemma int_value_slice_end:
  assumes "int_value n = Some N"
  shows "slice_end n len = (if 0 \<le> N then min (nat N) len else len - nat (- N))"
proof (cases n)
  case (Fin q)
  with assms have q: "q = of_int N"
    by (auto simp: int_value_def split: if_splits)
  have "js_trunc (of_int N) = N"
    by (simp add: js_trunc_def)
  then show ?thesis
    by (auto simp: Fin q slice_end_def Let_def)
qed (use assms in \<open>auto simp: int_value_def slice_end_def\<close>)

lemma int_value_of_int: "int_value (Fin (of_int N)) = Some N"
  by (simp add: int_value_def)

section \<open>The invariants hold in every run\<close>

lemma js_add_one:
  assumes "0 < c" "c = of_int \<lfloor>c\<rfloor>" "c + 1 < 2 ^ 53"
  shows "js_add (Fin c) (Fin 1) = Fin (c + 1)"
proof -
  define k where "k = \<lfloor>c\<rfloor> + 1"
  have c: "c + 1 = of_int k"
    using assms(2) by (simp add: k_def)
  have "rat_of_int k < of_int (2 ^ 53)"
    using assms(3) unfolding c by simp
  then have "k < 2 ^ 53"
    by (simp only: of_int_less_iff)
  moreover have "0 < rat_of_int k"
    using assms(1) unfolding c [symmetric] by simp
  then have "0 < k"
    by simp
  ultimately have "to_double (of_int k) = Fin (of_int k)"
    by (intro to_double_whole) simp_all
  with assms(1) show ?thesis
    by (simp add: js_add_def is_nan_def is_inf_def is_zero_def the_rat_def c)
qed

lemma distinct_remove_nth:
  assumes "distinct xs"
  shows "distinct (take i xs @ drop (Suc i) xs)"
proof -
  from assms have "distinct (take i xs @ drop i xs)"
    by simp
  then have "set (take i xs) \<inter> set (drop i xs) = {}"
    by (simp only: distinct_append)
  moreover have "set (drop (Suc i) xs) \<subseteq> set (drop i xs)"
    by (rule set_drop_subset_set_drop) simp
  ultimately have "set (take i xs) \<inter> set (drop (Suc i) xs) = {}"
    by blast
  with assms show ?thesis
    by (simp add: distinct_append)
qed

lemma store_invI:
  assumes "nextBookId s = Fin c" "0 < c" "c = of_int \<lfloor>c\<rfloor>"
    "\<forall>b\<in>set (books s). id_below c b" "distinct (map (\<lambda>b. lookup b ''id'') (books s))"
  shows "store_inv s"
  using assms by (simp add: store_inv_def list_all_iff)

lemma id_below_mono: "id_below c b \<Longrightarrow> c \<le> c' \<Longrightarrow> id_below c' b"
  by (auto simp: id_below_def split: jsval.splits jsnum.splits)

lemma store_inv_post:
  assumes inv: "store_inv s" and c: "nextBookId s = Fin c" and bound: "c + 1 < 2 ^ 53"
  shows "store_inv (snd (post_book y s body))"
    and "nextBookId (snd (post_book y s body)) = Fin c
      \<or> nextBookId (snd (post_book y s body)) = Fin (c + 1)"
proof -
  from inv c have pos: "0 < c" and whole: "c = of_int \<lfloor>c\<rfloor>"
    and below: "\<forall>b\<in>set (books s). id_below c b"
    and dist: "distinct (map (\<lambda>b. lookup b ''id'') (books s))"
    by (auto elim: invD)
  show "store_inv (snd (post_book y s body))"
  proof (cases "truthy (get_prop body ''title'') \<and> truthy (get_prop body ''author'')")
    case False
    then show ?thesis
      using post_book_invalid [of body y s] inv by auto
  next
    case True
    let ?nb = "[(''id'', JNum (nextBookId s)),
          (''title'', get_prop body ''title''),
          (''author'', get_prop body ''author''),
          (''year'', if truthy (get_prop body ''year'') then get_prop body ''year'' else JNum y),
          (''genre'', if truthy (get_prop body ''genre'') then get_prop body ''genre''
             else JStr ''General'')]"
    let ?s' = "s\<lparr>books := books s @ [?nb], nextBookId := js_add (nextBookId s) (Fin 1)\<rparr>"
    from True have eq: "snd (post_book y s body) = ?s'"
      by (simp add: post_book_valid_eq)
    have new: "lookup ?nb ''id'' = JNum (Fin c)"
      by (simp add: lookup_def c)
    have fresh: "JNum (Fin c) \<notin> set (map (\<lambda>b. lookup b ''id'') (books s))"
    proof
      assume "JNum (Fin c) \<in> set (map (\<lambda>b. lookup b ''id'') (books s))"
      then obtain b where b: "b \<in> set (books s)" "lookup b ''id'' = JNum (Fin c)"
        by auto
      with below have "id_below c b" by simp
      with b(2) show False by (simp add: id_below_def)
    qed
    have "store_inv ?s'"
    proof (rule store_invI [where c = "c + 1"])
      show "nextBookId ?s' = Fin (c + 1)"
        by (simp add: c js_add_one [OF pos whole bound])
      show "0 < c + 1" using pos by simp
      show "c + 1 = of_int \<lfloor>c + 1\<rfloor>" using whole by simp
      show "\<forall>b\<in>set (books ?s'). id_below (c + 1) b"
      proof
        fix b assume "b \<in> set (books ?s')"
        then consider "b \<in> set (books s)" | "b = ?nb" by auto
        then show "id_below (c + 1) b"
        proof cases
          case 1
          with below have "id_below c b" by simp
          then show ?thesis by (rule id_below_mono) simp
        next
          case 2
          from pos show ?thesis
            unfolding 2 id_below_def new by simp
        qed
      qed
      show "distinct (map (\<lambda>b. lookup b ''id'') (books ?s'))"
        using dist fresh by (simp add: new)
    qed
    then show ?thesis
      by (simp only: eq)
  qed
  show "nextBookId (snd (post_book y s body)) = Fin c
      \<or> nextBookId (snd (post_book y s body)) = Fin (c + 1)"
    by (auto simp: post_book_def Let_def c js_add_one [OF pos whole bound])
qed

lemma store_inv_update:
  assumes inv: "store_inv s" and i: "find_index (has_id n) (books s) = Some i"
    and nb: "lookup nb ''id'' = JNum n"
  shows "store_inv (s\<lparr>books := (books s)[i := nb]\<rparr>)"
proof -
  from inv obtain c where c: "nextBookId s = Fin c" "0 < c" "c = of_int \<lfloor>c\<rfloor>"
    and below: "\<forall>b\<in>set (books s). id_below c b"
    and dist: "distinct (map (\<lambda>b. lookup b ''id'') (books s))"
    by (rule invD)
  from find_index_Some [OF i] have il: "i < length (books s)"
    and hit: "has_id n (books s ! i)" by auto
  from below il have old: "id_below c (books s ! i)" by simp
  have same: "lookup nb ''id'' = lookup (books s ! i) ''id''"
    using id_below_has_id [OF old hit] nb by simp
  have ids: "map (\<lambda>b. lookup b ''id'') ((books s)[i := nb]) = map (\<lambda>b. lookup b ''id'') (books s)"
    using il same by (simp add: map_update list_update_same_conv)
  have "id_below c nb"
    using old by (simp add: id_below_lookup [OF same])
  with below have "\<forall>b\<in>set ((books s)[i := nb]). id_below c b"
    by (auto dest: set_update_subset_insert [THEN subsetD])
  with c dist show ?thesis
    by (intro store_invI [where c = c]) (simp_all add: ids)
qed

lemma store_inv_put: "store_inv s \<Longrightarrow> store_inv (snd (put_book s idp body))"
proof (cases "find_index (has_id (parse_int idp)) (books s)")
  case None
  assume "store_inv s"
  with None show ?thesis by (simp add: put_book_def)
next
  case (Some i)
  assume "store_inv s"
  from store_inv_update [OF this Some, of "[(''id'', JNum (parse_int idp)),
      (''title'', get_prop body ''title''), (''author'', get_prop body ''author''),
      (''year'', get_prop body ''year''), (''genre'', get_prop body ''genre'')]"] \<open>store_inv s\<close>
  show ?thesis
    by (simp add: put_book_present [OF Some] lookup_def)
qed

lemma store_inv_patch: "store_inv s \<Longrightarrow> store_inv (snd (patch_book s idp body))"
proof (cases "find_index (has_id (parse_int idp)) (books s)")
  case None
  assume "store_inv s"
  with None show ?thesis by (simp add: patch_book_def)
next
  case (Some i)
  assume "store_inv s"
  from store_inv_update [OF this Some, of "set_prop ''id'' (JNum (parse_int idp))
      (spread (spread [] (books s ! i)) (own_props body))"]
  show ?thesis
    by (simp add: patch_book_present [OF Some] lookup_set_prop)
qed

lemma store_inv_delete: "store_inv s \<Longrightarrow> store_inv (snd (delete_book s idp))"
proof (cases "find_index (has_id (parse_int idp)) (books s)")
  case None
  assume "store_inv s"
  with None show ?thesis by (simp add: delete_book_def)
next
  case (Some i)
  assume inv: "store_inv s"
  then obtain c where c: "nextBookId s = Fin c" "0 < c" "c = of_int \<lfloor>c\<rfloor>"
    and below: "\<forall>b\<in>set (books s). id_below c b"
    and dist: "distinct (map (\<lambda>b. lookup b ''id'') (books s))"
    by (rule invD)
  let ?bs = "take i (books s) @ drop (Suc i) (books s)"
  have sub: "set ?bs \<subseteq> set (books s)"
    by (auto dest: in_set_takeD in_set_dropD)
  have "distinct (map (\<lambda>b. lookup b ''id'') ?bs)"
  proof -
    have "map (\<lambda>b. lookup b ''id'') ?bs =
        take i (map (\<lambda>b. lookup b ''id'') (books s)) @ drop (Suc i) (map (\<lambda>b. lookup b ''id'') (books s))"
      by (simp add: take_map drop_map)
    also have "distinct \<dots>"
      using dist by (rule distinct_remove_nth)
    finally show ?thesis .
  qed
  with c below sub have "store_inv (s\<lparr>books := ?bs\<rparr>)"
    by (intro store_invI [where c = c]) auto
  then show ?thesis
    by (simp add: delete_book_present [OF Some])
qed

lemma counter_put: "nextBookId (snd (put_book s idp body)) = nextBookId s"
  by (simp add: put_book_def Let_def split: option.splits)

lemma counter_patch: "nextBookId (snd (patch_book s idp body)) = nextBookId s"
  by (simp add: patch_book_def Let_def split: option.splits)

lemma counter_delete: "nextBookId (snd (delete_book s idp)) = nextBookId s"
  by (simp add: delete_book_def Let_def split: option.splits)

lemma store_inv_handle:
  assumes "store_inv s" "nextBookId s = Fin c" "c + 1 < 2 ^ 53"
  shows "store_inv (snd (handle h rq s))"
    and "nextBookId (snd (handle h rq s)) = Fin c \<or> nextBookId (snd (handle h rq s)) = Fin (c + 1)"
  using assms
  by (cases rq; simp add: store_inv_post store_inv_put store_inv_patch store_inv_delete
      counter_put counter_patch counter_delete)+

text \<open>
  The counter of a JavaScript number stops counting at \<open>2 ^ 53\<close>; below that many requests
  the invariant holds after every request of a run.
\<close>

lemma store_inv_run:
  assumes "store_inv s" "nextBookId s = Fin c" "c + of_nat (length rqs) < 2 ^ 53"
  shows "store_inv (run h rqs s)"
  using assms
proof (induction rqs arbitrary: s c)
  case Nil
  then show ?case by simp
next
  case (Cons rq rqs)
  from Cons.prems(3) have b: "c + 1 < 2 ^ 53" "c + of_nat (length rqs) < 2 ^ 53"
    "c + 1 + of_nat (length rqs) < 2 ^ 53"
    by (simp_all add: algebra_simps)
  note step = store_inv_handle [OF Cons.prems(1,2) b(1), of h rq]
  from step(2) show ?case
  proof
    assume "nextBookId (snd (handle h rq s)) = Fin c"
    from Cons.IH [OF step(1) this b(2)] show ?thesis by simp
  next
    assume "nextBookId (snd (handle h rq s)) = Fin (c + 1)"
    from Cons.IH [OF step(1) this b(3)] show ?thesis by simp
  qed
qed

lemma store_inv_from_seed:
  assumes "length rqs < 2 ^ 53 - 5"
  shows "store_inv (run h rqs initial)"
proof -
  have "int (length rqs) < 2 ^ 53 - 5"
    using assms by (simp add: nat_less_iff [symmetric] del: of_nat_less_numeral_power_cancel_iff)
  then have "rat_of_int (int (length rqs)) < of_int (2 ^ 53 - 5)"
    by (simp only: of_int_less_iff)
  then have "5 + rat_of_nat (length rqs) < 2 ^ 53"
    by simp
  with initial_inv show ?thesis
    by (intro store_inv_run [where c = 5]) (simp_all add: initial_def)
qed

lemma wf_store_books:
  "wf_store s \<Longrightarrow> distinct (map fst b) \<Longrightarrow> wf_store (s\<lparr>books := (books s)[i := b]\<rparr>)"
  by (auto simp: wf_store_def list_all_iff dest: set_update_subset_insert [THEN subsetD])

lemma wf_store_handle: "wf_store s \<Longrightarrow> wf_store (snd (handle h rq s))"
proof (cases rq)
  case (PostBook y body)
  assume "wf_store s"
  then show ?thesis
    by (simp add: PostBook post_book_def Let_def wf_store_def)
next
  case (PutBook idp body)
  assume "wf_store s"
  then show ?thesis
    by (auto simp: PutBook put_book_def Let_def wf_store_books split: option.splits)
next
  case (PatchBook idp body)
  assume "wf_store s"
  then show ?thesis
    by (auto simp: PatchBook patch_book_def Let_def wf_store_books distinct_set_prop
        distinct_spread split: option.splits)
next
  case (DeleteBook idp)
  assume "wf_store s"
  then show ?thesis
    by (auto simp: DeleteBook delete_book_def Let_def wf_store_def list_all_iff
        dest: in_set_takeD in_set_dropD split: option.splits)
qed simp_all

lemma wf_store_run: "wf_store s \<Longrightarrow> wf_store (run h rqs s)"
  by (induction rqs arbitrary: s) (simp_all add: wf_store_handle)

lemma wf_store_from_seed: "wf_store (run h rqs initial)"
  by (rule wf_store_run [OF initial_wf])

section \<open>Lemmas on the arithmetic\<close>

lemma round_half_even_near: "\<bar>of_int (round_half_even m) - m\<bar> \<le> 1 / 2"
proof -
  have "of_int \<lfloor>m\<rfloor> \<le> m" "m < of_int \<lfloor>m\<rfloor> + 1"
    by linarith+
  then show ?thesis
    by (auto simp: round_half_even_def Let_def)
qed

lemma pow2_powi: "pow2 k = 2 powi k"
  by (simp add: pow2_def power_int_def inverse_eq_divide power_one_over)

lemma pow2_pos: "0 < pow2 k"
  by (simp add: pow2_powi)

lemma pow2_add: "pow2 (a + b) = pow2 a * pow2 b"
  by (simp add: pow2_powi power_int_add)

lemma pow2_mono: "a \<le> b \<Longrightarrow> pow2 a \<le> pow2 b"
  by (simp add: pow2_powi power_int_increasing)

lemma ilog2_le:
  assumes "0 < a"
  shows "pow2 (ilog2 a) \<le> a"
proof -
  obtain p d where pd: "quotient_of a = (p, d)"
    by (cases "quotient_of a")
  have d: "0 < d"
    using pd by (rule quotient_of_denom_pos)
  have a: "a = of_int p / of_int d"
    using pd by (rule quotient_of_div)
  have p: "0 < p"
    using assms d by (simp add: a zero_less_divide_iff)
  define k where "k = bitlen p - bitlen d"
  have "pow2 (k - 1) \<le> a"
  proof -
    have 1: "pow2 (bitlen p - 1) \<le> of_int p"
    proof -
      have "(2 :: int) ^ nat (bitlen p - 1) \<le> p"
        using bitlen_bounds [OF p] by simp
      then have "rat_of_int (2 ^ nat (bitlen p - 1)) \<le> of_int p"
        by (simp only: of_int_le_iff)
      moreover have "0 \<le> bitlen p - 1"
        using p by (simp add: bitlen_alt_def)
      ultimately show ?thesis
        by (simp add: pow2_def)
    qed
    have 2: "of_int d \<le> pow2 (bitlen d)"
    proof -
      have "d < 2 ^ nat (bitlen d)"
        using bitlen_bounds [OF d] by simp
      then have "rat_of_int d < of_int (2 ^ nat (bitlen d))"
        by (simp only: of_int_less_iff)
      moreover have "0 \<le> bitlen d"
        by (rule bitlen_nonneg)
      ultimately show ?thesis
        by (simp add: pow2_def)
    qed
    have "pow2 (k - 1) * of_int d \<le> pow2 (k - 1) * pow2 (bitlen d)"
      using 2 pow2_pos [of "k - 1"] by (simp add: mult_left_mono)
    also have "\<dots> = pow2 (bitlen p - 1)"
      by (simp add: pow2_add [symmetric] k_def)
    also have "\<dots> \<le> of_int p"
      by (rule 1)
    finally show ?thesis
      using d by (simp add: a pos_le_divide_eq)
  qed
  then show ?thesis
    by (simp add: ilog2_def pd Let_def k_def)
qed

lemma floor_cases:
  fixes x :: rat
  shows "m \<le> \<lfloor>x\<rfloor> \<and> rat_of_int m \<le> of_int \<lfloor>x\<rfloor> \<or> \<lfloor>x\<rfloor> + 1 \<le> m \<and> rat_of_int \<lfloor>x\<rfloor> + 1 \<le> of_int m"
proof (cases "m \<le> \<lfloor>x\<rfloor>")
  case True
  then show ?thesis by simp
next
  case False
  then have "\<lfloor>x\<rfloor> + 1 \<le> m" by simp
  then have "rat_of_int (\<lfloor>x\<rfloor> + 1) \<le> of_int m" by (simp only: of_int_le_iff)
  with \<open>\<lfloor>x\<rfloor> + 1 \<le> m\<close> show ?thesis by simp
qed

lemma round_half_even_nearest:
  "\<bar>of_int (round_half_even x) - x\<bar> \<le> \<bar>of_int m - x\<bar>"
proof -
  have "of_int \<lfloor>x\<rfloor> \<le> x" "x < of_int \<lfloor>x\<rfloor> + 1"
    by linarith+
  with floor_cases [of m x] show ?thesis
    by (auto simp: round_half_even_def Let_def)
qed

lemma round_half_even_ge: "of_int m \<le> x \<Longrightarrow> m \<le> round_half_even x"
proof -
  assume "of_int m \<le> x"
  then have "m \<le> \<lfloor>x\<rfloor>"
    by (simp add: le_floor_iff)
  then show ?thesis
    by (auto simp: round_half_even_def Let_def)
qed

lemma round_half_even_le: "x \<le> of_int m \<Longrightarrow> round_half_even x \<le> m"
proof (cases "x = of_int m")
  case True
  then show ?thesis
    by (simp add: round_half_even_int)
next
  case False
  assume "x \<le> of_int m"
  with False have "x < of_int m"
    by simp
  then have "\<lfloor>x\<rfloor> < m"
    by (simp add: floor_less_iff)
  then show ?thesis
    by (auto simp: round_half_even_def Let_def)
qed

lemma round_half_even_half:
  assumes "of_int m - 1 / 2 \<le> x" "even m"
  shows "m \<le> round_half_even x"
proof (cases "m \<le> \<lfloor>x\<rfloor>")
  case True
  then show ?thesis
    by (auto simp: round_half_even_def Let_def)
next
  case False
  have "of_int (m - 1) \<le> x"
    using assms(1) by simp
  then have "m - 1 \<le> \<lfloor>x\<rfloor>"
    by (simp only: le_floor_iff)
  with False have f: "\<lfloor>x\<rfloor> = m - 1"
    by simp
  then have "odd \<lfloor>x\<rfloor>"
    using assms(2) by simp
  moreover have "1 / 2 \<le> x - of_int \<lfloor>x\<rfloor>"
    using assms(1) by (simp add: f)
  ultimately show ?thesis
    by (auto simp: round_half_even_def Let_def f)
qed

lemma round_half_even_tie:
  assumes "m \<noteq> round_half_even x" "\<bar>of_int m - x\<bar> = \<bar>of_int (round_half_even x) - x\<bar>"
  shows "even (round_half_even x)"
proof -
  have b: "of_int \<lfloor>x\<rfloor> \<le> x" "x < of_int \<lfloor>x\<rfloor> + 1"
    by linarith+
  have "x - of_int \<lfloor>x\<rfloor> = 1 / 2"
  proof (rule ccontr)
    assume n: "x - of_int \<lfloor>x\<rfloor> \<noteq> 1 / 2"
    from floor_cases [of m x] b assms show False
      using n by (auto simp: round_half_even_def Let_def split: if_splits)
  qed
  then show ?thesis
    by (auto simp: round_half_even_def Let_def)
qed

lemma ilog2_less:
  assumes "0 < a"
  shows "a < pow2 (ilog2 a + 1)"
proof -
  obtain p d where pd: "quotient_of a = (p, d)"
    by (cases "quotient_of a")
  have d: "0 < d"
    using pd by (rule quotient_of_denom_pos)
  have a: "a = of_int p / of_int d"
    using pd by (rule quotient_of_div)
  have p: "0 < p"
    using assms d by (simp add: a zero_less_divide_iff)
  define k where "k = bitlen p - bitlen d"
  have "a < pow2 (k + 1)"
  proof -
    have 1: "of_int p < pow2 (bitlen p)"
    proof -
      have "p < 2 ^ nat (bitlen p)"
        using bitlen_bounds [OF p] by simp
      then have "rat_of_int p < of_int (2 ^ nat (bitlen p))"
        by (simp only: of_int_less_iff)
      moreover have "0 \<le> bitlen p"
        by (rule bitlen_nonneg)
      ultimately show ?thesis
        by (simp add: pow2_def)
    qed
    have 2: "pow2 (bitlen d - 1) \<le> of_int d"
    proof -
      have "(2 :: int) ^ nat (bitlen d - 1) \<le> d"
        using bitlen_bounds [OF d] by simp
      then have "rat_of_int (2 ^ nat (bitlen d - 1)) \<le> of_int d"
        by (simp only: of_int_le_iff)
      moreover have "0 \<le> bitlen d - 1"
        using d by (simp add: bitlen_alt_def)
      ultimately show ?thesis
        by (simp add: pow2_def)
    qed
    have "of_int p < pow2 (bitlen p)"
      by (rule 1)
    also have "\<dots> = pow2 (k + 1) * pow2 (bitlen d - 1)"
      by (simp add: pow2_add [symmetric] k_def)
    also have "\<dots> \<le> pow2 (k + 1) * of_int d"
      using 2 pow2_pos [of "k + 1"] by (simp add: mult_left_mono)
    finally show ?thesis
      using d by (simp add: a pos_divide_less_eq)
  qed
  then show ?thesis
    by (simp add: ilog2_def pd Let_def k_def not_le)
qed

lemma pow2_less_cancel: "pow2 a < pow2 b \<Longrightarrow> a < b"
  using pow2_mono [of b a] by (cases "a < b") simp_all

lemma nearest_multiple:
  assumes "0 < u"
  shows "\<bar>of_int (round_half_even (a / u)) * u - a\<bar> \<le> \<bar>of_int m * u - a\<bar>"
proof -
  have s: "\<bar>of_int k * u - a\<bar> = \<bar>of_int k - a / u\<bar> * u" for k
  proof -
    have "\<bar>rat_of_int k - a / u\<bar> * u = \<bar>rat_of_int k - a / u\<bar> * \<bar>u\<bar>"
      using assms by simp
    also have "\<dots> = \<bar>(rat_of_int k - a / u) * u\<bar>"
      by (simp only: abs_mult)
    also have "(rat_of_int k - a / u) * u = of_int k * u - a"
      using assms by (simp add: left_diff_distrib)
    finally show ?thesis
      by simp
  qed
  show ?thesis
    unfolding s using round_half_even_nearest [of "a / u" m] assms
    by (simp only: mult_le_cancel_right_pos)
qed

lemma tie_multiple:
  assumes "0 < u" "of_int m * u \<noteq> of_int (round_half_even (a / u)) * u"
    "\<bar>of_int m * u - a\<bar> = \<bar>of_int (round_half_even (a / u)) * u - a\<bar>"
  shows "even (round_half_even (a / u))"
proof -
  have s: "\<bar>of_int k * u - a\<bar> = \<bar>of_int k - a / u\<bar> * u" for k
  proof -
    have "\<bar>rat_of_int k - a / u\<bar> * u = \<bar>rat_of_int k - a / u\<bar> * \<bar>u\<bar>"
      using assms(1) by simp
    also have "\<dots> = \<bar>(rat_of_int k - a / u) * u\<bar>"
      by (simp only: abs_mult)
    also have "(rat_of_int k - a / u) * u = of_int k * u - a"
      using assms(1) by (simp add: left_diff_distrib)
    finally show ?thesis
      by simp
  qed
  have "m \<noteq> round_half_even (a / u)"
    using assms(2) by auto
  moreover have "\<bar>of_int m - a / u\<bar> = \<bar>of_int (round_half_even (a / u)) - a / u\<bar>"
    using assms(3) assms(1) unfolding s by simp
  ultimately show ?thesis
    by (rule round_half_even_tie)
qed


lemma pow2_split: "pow2 e = pow2 k * pow2 (e - k)"
  using pow2_add [of k "e - k"] by simp

lemma rounding_core:
  fixes a :: rat
  assumes a: "0 < a"
  defines "e \<equiv> max (ilog2 a) (- 1022)"
  defines "u \<equiv> pow2 (e - 52)"
  defines "n \<equiv> round_half_even (a / u)"
  defines "v \<equiv> of_int n * u"
  shows "0 \<le> n"
    and "n = 0 \<Longrightarrow> a \<le> 1 / 2 ^ 1075"
    and "pow2 1024 \<le> v \<Longrightarrow> 2 ^ 1024 - 2 ^ 970 \<le> a"
    and "v < pow2 1024 \<Longrightarrow> a < 2 ^ 1024 - 2 ^ 970"
    and "v < pow2 1024 \<Longrightarrow> is_double v"
    and "is_double w \<Longrightarrow> \<bar>v - a\<bar> \<le> \<bar>w - a\<bar>"
    and "v < pow2 1024 \<Longrightarrow> is_double w \<Longrightarrow> w \<noteq> v \<Longrightarrow> \<bar>w - a\<bar> = \<bar>v - a\<bar> \<Longrightarrow> even_double v"
    and "\<bar>v - a\<bar> \<le> max (a / 2 ^ 53) (1 / 2 ^ 1075)"
proof -
  have u: "0 < u"
    by (simp add: u_def pow2_pos)
  have e: "- 1022 \<le> e"
    by (simp add: e_def)
  have p52: "pow2 e = of_int (2 ^ 52) * u"
  proof -
    show ?thesis
      using pow2_split [of e 52] by (simp add: u_def pow2_def [of 52])
  qed
  have p53: "pow2 (e + 1) = of_int (2 ^ 53) * u"
  proof -
    show ?thesis
      using pow2_split [of "e + 1" 53] by (simp add: u_def pow2_def [of 53])
  qed
  have half: "u / 2 = pow2 (e - 53)"
  proof -
    show ?thesis
      using pow2_split [of "e - 52" 1] by (simp add: u_def pow2_def [of 1])
  qed
  have normal: "pow2 e \<le> a" "of_int (2 ^ 52) \<le> a / u" if "- 1022 \<le> ilog2 a"
  proof -
    from that have "e = ilog2 a"
      by (simp add: e_def)
    then show 2: "pow2 e \<le> a"
      using ilog2_le [OF a] by simp
    then show "of_int (2 ^ 52) \<le> a / u"
      using u unfolding p52 by (simp only: pos_le_divide_eq)
  qed
  have upper: "a < pow2 (e + 1)"
  proof -
    have "a < pow2 (ilog2 a + 1)"
      using a by (rule ilog2_less)
    also have "\<dots> \<le> pow2 (e + 1)"
      by (rule pow2_mono) (simp add: e_def)
    finally show ?thesis .
  qed
  then have x53: "a / u \<le> of_int (2 ^ 53)"
    using u unfolding p53 by (simp only: pos_divide_le_eq less_imp_le)
  have near: "\<bar>v - a\<bar> \<le> \<bar>of_int m * u - a\<bar>" for m
    unfolding v_def n_def using u by (rule nearest_multiple)
  have halfulp: "\<bar>v - a\<bar> \<le> u / 2"
  proof -
    have "\<bar>rat_of_int n - a / u\<bar> \<le> 1 / 2"
      unfolding n_def by (rule round_half_even_near)
    then have "\<bar>rat_of_int n - a / u\<bar> * u \<le> 1 / 2 * u"
      using u by (simp only: mult_le_cancel_right_pos)
    moreover have "\<bar>rat_of_int n - a / u\<bar> * u = \<bar>v - a\<bar>"
    proof -
      have "\<bar>rat_of_int n - a / u\<bar> * u = \<bar>rat_of_int n - a / u\<bar> * \<bar>u\<bar>"
        using u by simp
      also have "\<dots> = \<bar>(rat_of_int n - a / u) * u\<bar>"
        by (simp only: abs_mult)
      also have "(rat_of_int n - a / u) * u = v - a"
        using u by (simp add: v_def left_diff_distrib)
      finally show ?thesis .
    qed
    ultimately show ?thesis
      by simp
  qed
  show n0: "0 \<le> n"
    unfolding n_def using a u by (intro round_half_even_ge) simp
  have n53: "n \<le> 2 ^ 53"
    unfolding n_def using x53 by (rule round_half_even_le)
  have n52: "2 ^ 52 \<le> n" if "- 1022 \<le> ilog2 a"
    unfolding n_def using normal(2) [OF that] by (intro round_half_even_ge) simp
  have subnormal: "e = - 1022" if "\<not> - 1022 \<le> ilog2 a"
    using that by (simp add: e_def)
  have grid: "e - 52 = - 1074 \<or> 2 ^ 52 \<le> n"
    using n52 subnormal by (cases "- 1022 \<le> ilog2 a") simp_all
  have below: "pow2 e \<le> v" if "- 1022 \<le> ilog2 a"
  proof -
    have "rat_of_int (2 ^ 52) \<le> of_int n"
      using n52 [OF that] by (simp only: of_int_le_iff)
    then show ?thesis
      unfolding p52 v_def using u by (simp only: mult_le_cancel_right_pos)
  qed
  have e1023: "e \<le> 1023" if "v < pow2 1024"
  proof (rule ccontr)
    assume "\<not> e \<le> 1023"
    then have 1: "1024 \<le> e"
      by simp
    then have "- 1022 \<le> ilog2 a"
      by (simp add: e_def)
    then have "pow2 e \<le> v"
      by (rule below)
    moreover have "pow2 1024 \<le> pow2 e"
      using 1 by (rule pow2_mono)
    ultimately show False
      using that by simp
  qed
  show "a \<le> 1 / 2 ^ 1075" if "n = 0"
  proof -
    have s: "e = - 1022"
    proof (rule subnormal, rule notI)
      assume "- 1022 \<le> ilog2 a"
      from n52 [OF this] that show False
        by simp
    qed
    have "\<bar>v - a\<bar> \<le> \<bar>of_int 1 * u - a\<bar>"
      by (rule near)
    then have "a \<le> u / 2"
      using that a u by (simp add: v_def abs_if split: if_splits)
    then show ?thesis
      by (simp add: half s pow2_def)
  qed
  show "2 ^ 1024 - 2 ^ 970 \<le> a" if "pow2 1024 \<le> v"
  proof (cases "e \<le> 1023")
    case True
    then have "pow2 (e - 53) \<le> pow2 970"
      by (intro pow2_mono) simp
    then have "u / 2 \<le> 2 ^ 970"
      by (simp add: half pow2_def)
    moreover have "2 ^ 1024 \<le> v"
      using that by (simp add: pow2_def)
    ultimately show ?thesis
      using halfulp by linarith
  next
    case False
    then have i: "- 1022 \<le> ilog2 a" and "1024 \<le> e"
      by (simp_all add: e_def)
    have "pow2 1024 \<le> pow2 e"
      by (rule pow2_mono) fact
    moreover have "pow2 e \<le> a"
      by (rule normal(1) [OF i])
    ultimately have "2 ^ 1024 \<le> a"
      by (simp add: pow2_def [of 1024])
    moreover have "(0 :: rat) \<le> 2 ^ 970"
      by simp
    ultimately show ?thesis
      by (simp only: diff_le_eq add_increasing2)
  qed
  show "a < 2 ^ 1024 - 2 ^ 970" if small: "v < pow2 1024"
  proof (rule ccontr)
    assume "\<not> a < 2 ^ 1024 - 2 ^ 970"
    then have t: "2 ^ 1024 - 2 ^ 970 \<le> a"
      by simp
    then have "pow2 1023 \<le> a"
      by (simp add: pow2_def)
    with upper have "pow2 1023 < pow2 (e + 1)"
      by simp
    then have "1023 < e + 1"
      by (rule pow2_less_cancel)
    with e1023 [OF small] have e: "e = 1023"
      by simp
    then have u971: "u = 2 ^ 971"
      by (simp add: u_def pow2_def)
    have "of_int (2 ^ 53) - 1 / 2 \<le> a / u"
      using t by (simp add: u971 pos_le_divide_eq)
    then have "2 ^ 53 \<le> n"
      unfolding n_def by (rule round_half_even_half) simp
    then have "rat_of_int (2 ^ 53) \<le> of_int n"
      by (simp only: of_int_le_iff)
    then have "pow2 (e + 1) \<le> v"
      unfolding p53 v_def using u by (simp only: mult_le_cancel_right_pos)
    with small show False
      by (simp add: e)
  qed
  show "is_double v" if small: "v < pow2 1024"
  proof (cases "n < 2 ^ 53")
    case True
    with n0 have "\<bar>n\<bar> < 2 ^ 53"
      by simp
    moreover have "- 1074 \<le> e - 52" "e - 52 \<le> 971"
      using e e1023 [OF small] by simp_all
    ultimately show ?thesis
      unfolding is_double_def v_def u_def by blast
  next
    case False
    with n53 have n: "n = 2 ^ 53"
      by simp
    then have "v = pow2 (e + 1)"
      by (simp add: v_def p53)
    with small have "e + 1 < 1024"
      by (intro pow2_less_cancel) simp
    then have "- 1074 \<le> e - 51" "e - 51 \<le> 971"
      using e by simp_all
    moreover have "v = of_int (2 ^ 52) * pow2 (e - 51)"
    proof -
      show ?thesis
        using pow2_split [of "e + 1" 52] by (simp add: \<open>v = pow2 (e + 1)\<close> pow2_def [of 52])
    qed
    moreover have "\<bar>2 ^ 52 :: int\<bar> < 2 ^ 53"
      by simp
    ultimately show ?thesis
      unfolding is_double_def by blast
  qed
  show "\<bar>v - a\<bar> \<le> max (a / 2 ^ 53) (1 / 2 ^ 1075)"
  proof (cases "- 1022 \<le> ilog2 a")
    case True
    have "pow2 e = pow2 53 * pow2 (e - 53)"
      by (rule pow2_split)
    with normal(1) [OF True] have "u / 2 \<le> a / 2 ^ 53"
      by (simp add: half pow2_def [of 53])
    with halfulp have "\<bar>v - a\<bar> \<le> a / 2 ^ 53"
      by (rule order_trans)
    then show ?thesis
      by (rule max.coboundedI1)
  next
    case False
    then have "u / 2 = 1 / 2 ^ 1075"
      by (simp add: half subnormal pow2_def)
    with halfulp have "\<bar>v - a\<bar> \<le> 1 / 2 ^ 1075"
      by (simp only:)
    then show ?thesis
      by (rule max.coboundedI2)
  qed
  have split: "(\<exists>m. w = of_int m * u) \<or> \<bar>v - a\<bar> < \<bar>w - a\<bar>" if "is_double w" for w
  proof -
    from that obtain m k where m: "\<bar>m\<bar> < 2 ^ 53" and k: "- 1074 \<le> k" "k \<le> 971"
      and w: "w = of_int m * pow2 k"
      unfolding is_double_def by blast
    show ?thesis
    proof (cases "e - 52 \<le> k")
      case True
      define j where "j = nat (k - (e - 52))"
      have "k - (e - 52) = int j"
        using True by (simp add: j_def)
      then have "pow2 k = pow2 (e - 52) * pow2 (int j)"
        using pow2_split [of k "e - 52"] by simp
      then have "pow2 k = of_int (2 ^ j) * u"
        by (simp add: u_def pow2_def [of "int j"])
      then have "w = of_int (m * 2 ^ j) * u"
        by (simp add: w)
      then show ?thesis
        by blast
    next
      case False
      then have k53: "k \<le> e - 53"
        by simp
      with k(1) have "\<not> e = - 1022"
        by simp
      with subnormal have i: "- 1022 \<le> ilog2 a"
        by blast
      have "rat_of_int \<bar>m\<bar> < of_int (2 ^ 53)"
        using m by (simp only: of_int_less_iff)
      then have "\<bar>rat_of_int m\<bar> * pow2 k < of_int (2 ^ 53) * pow2 k"
        using pow2_pos [of k] by (simp only: mult_less_cancel_right_pos of_int_abs)
      also have "\<dots> \<le> of_int (2 ^ 53) * pow2 (e - 53)"
        using pow2_mono [OF k53] by (simp add: mult_left_mono)
      also have "\<dots> = pow2 e"
      proof -
        show ?thesis
          using pow2_split [of e 53] by (simp add: pow2_def [of 53])
      qed
      finally have "\<bar>w\<bar> < pow2 e"
        using pow2_pos [of k] by (simp add: w abs_mult)
      moreover have "pow2 e \<le> a"
        by (rule normal(1) [OF i])
      moreover have "\<bar>v - a\<bar> \<le> \<bar>pow2 e - a\<bar>"
        unfolding p52 by (rule near)
      ultimately have "\<bar>v - a\<bar> < \<bar>w - a\<bar>"
        by linarith
      then show ?thesis
        by simp
    qed
  qed
  show "\<bar>v - a\<bar> \<le> \<bar>w - a\<bar>" if "is_double w"
    using split [OF that] near by auto
  show "even_double v" if small: "v < pow2 1024" and "is_double w" "w \<noteq> v" "\<bar>w - a\<bar> = \<bar>v - a\<bar>"
  proof -
    from split [OF that(2)] that(4) obtain m where w: "w = of_int m * u"
      by auto
    have "even n"
      unfolding n_def
    proof (rule tie_multiple [OF u, of m])
      show "of_int m * u \<noteq> of_int (round_half_even (a / u)) * u"
        using that(3) by (simp add: w v_def n_def)
      show "\<bar>of_int m * u - a\<bar> = \<bar>of_int (round_half_even (a / u)) * u - a\<bar>"
        using that(4) by (simp add: w v_def n_def)
    qed
    moreover have "\<bar>n\<bar> \<le> 2 ^ 53"
      using n0 n53 by simp
    moreover have "- 1074 \<le> e - 52" "e - 52 \<le> 971"
      using e e1023 [OF small] by simp_all
    moreover have "e - 52 = - 1074 \<or> 2 ^ 52 \<le> \<bar>n\<bar>"
      using grid n0 by auto
    ultimately show ?thesis
      unfolding even_double_def v_def u_def by blast
  qed
qed


lemma is_double_minus: "is_double (- v) = is_double v"
proof -
  have "is_double (- w)" if "is_double w" for w
  proof -
    from that obtain n k where "\<bar>n\<bar> < 2 ^ 53" "- 1074 \<le> k" "k \<le> 971" "w = of_int n * pow2 k"
      unfolding is_double_def by blast
    then have "\<bar>- n\<bar> < 2 ^ 53 \<and> - 1074 \<le> k \<and> k \<le> 971 \<and> - w = of_int (- n) * pow2 k"
      by simp
    then show ?thesis
      unfolding is_double_def by blast
  qed
  from this [of v] this [of "- v"] show ?thesis
    by auto
qed


lemma is_double_whole: "\<bar>k\<bar> < 2 ^ 53 \<Longrightarrow> is_double (of_int k)"
proof -
  assume "\<bar>k\<bar> < 2 ^ 53"
  then have "\<bar>k\<bar> < 2 ^ 53 \<and> - 1074 \<le> (0 :: int) \<and> (0 :: int) \<le> 971
      \<and> rat_of_int k = of_int k * pow2 0"
    by (simp add: pow2_def)
  then show ?thesis
    unfolding is_double_def by blast
qed



lemma is_finite_iff: "is_finite x \<longleftrightarrow> x = NZero \<or> (\<exists>q. x = Fin q)"
  by (cases x) (simp_all add: is_finite_def)








lemma rounds_error:
  assumes "rounds e (Fin v)"
  shows "\<bar>v - e\<bar> \<le> max (\<bar>e\<bar> / 2 ^ 53) (1 / 2 ^ 1075)"
proof -
  from assms have n: "is_double w \<Longrightarrow> \<bar>v - e\<bar> \<le> \<bar>w - e\<bar>" for w
    by (simp add: rounds_def)
  from assms have t: "\<bar>e\<bar> < 2 ^ 1024 - 2 ^ 970"
    by (simp add: rounds_def)
  show ?thesis
  proof (cases "e = 0")
    case True
    with n [OF is_double_whole [of 0]] show ?thesis
      by simp
  next
    case False
    define a where "a = \<bar>e\<bar>"
    define v0 where "v0 = rat_of_int (round_half_even (a / pow2 (max (ilog2 a) (- 1022) - 52)))
      * pow2 (max (ilog2 a) (- 1022) - 52)"
    have a: "0 < a"
      using False by (simp add: a_def)
    note c = rounding_core [OF a, folded v0_def]
    have "\<not> pow2 1024 \<le> v0"
      using c(3) t by (auto simp: a_def)
    then have "is_double v0"
      by (intro c(5)) simp
    then have "is_double (if e < 0 then - v0 else v0)"
      by (simp add: is_double_minus)
    then have "\<bar>v - e\<bar> \<le> \<bar>(if e < 0 then - v0 else v0) - e\<bar>"
      by (rule n)
    also have "\<dots> = \<bar>v0 - a\<bar>"
      using abs_minus [of "v0 + e"] by (simp add: a_def del: abs_minus)
    also have "\<dots> \<le> max (a / 2 ^ 53) (1 / 2 ^ 1075)"
      by (rule c(8))
    finally show ?thesis
      by (simp only: a_def)
  qed
qed

lemma infinite_operands:
  "js_add (Infinity s) (Infinity t) = (if s = t then Infinity s else NaN)"
  "js_sub (Infinity s) (Infinity t) = (if s = t then NaN else Infinity s)"
  "js_mul (Infinity s) (Infinity t) = Infinity (s \<noteq> t)"
  "js_div (Infinity s) (Infinity t) = NaN"
  "is_finite y \<Longrightarrow> js_add (Infinity s) y = Infinity s"
  "is_finite y \<Longrightarrow> js_add y (Infinity s) = Infinity s"
  "is_finite y \<Longrightarrow> js_sub (Infinity s) y = Infinity s"
  "is_finite y \<Longrightarrow> js_sub y (Infinity s) = Infinity (\<not> s)"
  "is_finite y \<Longrightarrow> js_mul (Infinity s) y = (if is_zero y then NaN else Infinity (s \<noteq> negative y))"
  "is_finite y \<Longrightarrow> js_mul y (Infinity s) = (if is_zero y then NaN else Infinity (negative y \<noteq> s))"
  "is_finite y \<Longrightarrow> js_div (Infinity s) y = Infinity (s \<noteq> negative y)"
  "is_finite y \<Longrightarrow> js_div y (Infinity s) = zero_of (negative y \<noteq> s)"
  by (auto simp: is_finite_iff js_add_def js_sub_def js_neg_def js_mul_def js_div_def is_nan_def
      is_inf_def is_zero_def negative_def split: if_splits)

lemma nan_operands:
  "js_add NaN y = NaN" "js_add x NaN = NaN" "js_sub NaN y = NaN" "js_sub x NaN = NaN"
  "js_mul NaN y = NaN" "js_mul x NaN = NaN" "js_div NaN y = NaN" "js_div x NaN = NaN"
  by (auto simp: js_add_def js_sub_def js_neg_def js_mul_def js_div_def is_nan_def
      split: jsnum.splits)

section \<open>Creating a book\<close>

text \<open>
  Claim C1, as amended. In a store that satisfies the invariant, a create whose title and
  author are truthy (a non-empty string is) answers 201 and gives the new entry the value
  of the counter \<open>nextBookId\<close> as its identifier, which is greater than the identifier of
  every book in the collection; the entry is appended, and a Get whose path segment
  parses to that identifier, as its decimal numeral does, answers 200 with the new entry.
\<close>

theorem post_book_assigns_counter:
  assumes "store_inv s" "truthy (get_prop body ''title'')" "truthy (get_prop body ''author'')"
  shows "status (fst (post_book y s body)) = 201
    \<and> (\<exists>nb. get_prop (payload (fst (post_book y s body))) ''data'' = JObj nb
          \<and> lookup nb ''id'' = JNum (nextBookId s)
          \<and> books (snd (post_book y s body)) = books s @ [nb]
          \<and> (\<forall>idp. parse_int idp = nextBookId s \<longrightarrow>
                get_book h (snd (post_book y s body)) idp =
                  json 200 [(''success'', JBool True), (''pathParam'', JStr idp),
                    (''data'', JObj nb)])
          \<and> (\<forall>n. nextBookId s = Fin (of_nat n) \<and> int n < 2 ^ 53 \<longrightarrow>
                get_book h (snd (post_book y s body)) (show_nat n) =
                  json 200 [(''success'', JBool True), (''pathParam'', JStr (show_nat n)),
                    (''data'', JObj nb)]))
    \<and> (\<exists>c. nextBookId s = Fin c
          \<and> (\<forall>b\<in>set (books s). \<exists>i. lookup b ''id'' = JNum (Fin i) \<and> i < c))"
proof -
  let ?nb = "[(''id'', JNum (nextBookId s)),
          (''title'', get_prop body ''title''),
          (''author'', get_prop body ''author''),
          (''year'', if truthy (get_prop body ''year'') then get_prop body ''year'' else JNum y),
          (''genre'', if truthy (get_prop body ''genre'') then get_prop body ''genre''
             else JStr ''General'')]"
  from assms(1) obtain c where c: "nextBookId s = Fin c" and pos: "0 < c"
    and below: "\<forall>b\<in>set (books s). id_below c b"
    by (rule invD)
  have eq: "post_book y s body =
    (json 201 [(''success'', JBool True), (''message'', JStr ''Book created successfully!''),
       (''data'', JObj ?nb)],
     s\<lparr>books := books s @ [?nb], nextBookId := js_add (nextBookId s) (Fin 1)\<rparr>)"
    by (rule post_book_valid_eq [OF assms(2,3)])
  have none: "find (has_id (Fin c)) (books s) = None"
    using below by (simp add: find_None_iff id_below_not_counter)
  have new: "has_id (Fin c) ?nb"
    by (simp add: has_id_def lookup_def strict_eq_num_def num_eq_def is_nan_def c)
  have get: "get_book h (snd (post_book y s body)) idp =
      json 200 [(''success'', JBool True), (''pathParam'', JStr idp), (''data'', JObj ?nb)]"
    if "parse_int idp = nextBookId s" for idp
    using that none new by (simp add: eq get_book_def find_append c)
  have 1: "status (fst (post_book y s body)) = 201"
    by (simp add: eq status_json)
  have 2: "get_prop (payload (fst (post_book y s body))) ''data'' = JObj ?nb"
    by (simp add: eq payload_json get_prop_JObj lookup_def)
  have 3: "lookup ?nb ''id'' = JNum (nextBookId s)"
    by (simp add: lookup_def)
  have 4: "books (snd (post_book y s body)) = books s @ [?nb]"
    by (simp add: eq)
  have 5: "\<exists>c. nextBookId s = Fin c
          \<and> (\<forall>b\<in>set (books s). \<exists>i. lookup b ''id'' = JNum (Fin i) \<and> i < c)"
    using c below id_belowD by blast
  have path: "get_book h (snd (post_book y s body)) (show_nat n) =
      json 200 [(''success'', JBool True), (''pathParam'', JStr (show_nat n)),
        (''data'', JObj ?nb)]"
    if "nextBookId s = Fin (of_nat n) \<and> int n < 2 ^ 53" for n
  proof -
    from that c pos have "0 < n" by (cases n) simp_all
    with that have "parse_int (show_nat n) = nextBookId s"
      by (simp add: parse_int_show_nat)
    then show ?thesis by (rule get)
  qed
  from 1 2 3 4 5 get path show ?thesis
    by blast
qed

theorem post_book_assigns_counter_witness:
  "store_inv initial
   \<and> truthy (get_prop (JObj [(''title'', JStr ''T''), (''author'', JStr ''A'')]) ''title'')
   \<and> truthy (get_prop (JObj [(''title'', JStr ''T''), (''author'', JStr ''A'')]) ''author'')
   \<and> status (fst (post_book (Fin 2026) initial
        (JObj [(''title'', JStr ''T''), (''author'', JStr ''A'')]))) = 201
   \<and> status (get_book sample_host (snd (post_book (Fin 2026) initial
        (JObj [(''title'', JStr ''T''), (''author'', JStr ''A'')]))) ''5'') = 200"
proof -
  let ?body = "JObj [(''title'', JStr ''T''), (''author'', JStr ''A'')]"
  have t: "truthy (get_prop ?body ''title'')" and a: "truthy (get_prop ?body ''author'')"
    by (simp_all add: get_prop_JObj lookup_def truthy_def)
  have p: "parse_int ''5'' = nextBookId initial"
    by (simp add: eval_parse_int initial_def)
  from post_book_assigns_counter [OF initial_inv t a, of "Fin 2026" sample_host] p
  have "status (fst (post_book (Fin 2026) initial ?body)) = 201"
    and "\<exists>nb. get_book sample_host (snd (post_book (Fin 2026) initial ?body)) ''5'' =
      json 200 [(''success'', JBool True), (''pathParam'', JStr ''5''), (''data'', JObj nb)]"
    by blast+
  with initial_inv t a show ?thesis
    by (auto simp: status_json)
qed

theorem post_book_after_delete_counterexample:
  "status (fst (post_book (Fin 2026) (snd (delete_book initial ''4''))
       (JObj [(''title'', JStr ''T''), (''author'', JStr ''A'')]))) = 201
   \<and> max_id (books (snd (delete_book initial ''4''))) = 3
   \<and> get_prop (get_prop (payload (fst (post_book (Fin 2026) (snd (delete_book initial ''4''))
       (JObj [(''title'', JStr ''T''), (''author'', JStr ''A'')])))) ''data'') ''id''
      = JNum (Fin 5)
   \<and> get_prop (get_prop (payload (fst (post_book (Fin 2026) (snd (delete_book initial ''4''))
       (JObj [(''title'', JStr ''T''), (''author'', JStr ''A'')])))) ''data'') ''id''
      \<noteq> JNum (Fin (max_id (books (snd (delete_book initial ''4''))) + 1))"
proof -
  have p: "parse_int ''4'' = Fin 4"
    by (simp add: eval_parse_int)
  have d: "snd (delete_book initial ''4'') = initial\<lparr>books := take 3 (books initial)\<rparr>"
    by (simp add: delete_book_def p eval_store)
  show ?thesis
    unfolding d by (simp add: post_book_def Let_def max_id_def id_of_def eval_store)
qed

section \<open>Replacing a book\<close>

text \<open>
  Claim C2, as amended. For a path identifier that a book of the store has, a PUT whose
  body gives a truthy value for each of title, author, year and genre answers 200, and a
  Get of the same path then returns exactly those four values under the identifier, which
  is the one the replaced book had. A PUT whose body omits any of the four fields, or
  gives a falsy value for one, answers 400 and leaves the store as it was. For an
  identifier that no book has, the answer is 404 and the store is left as it was.
\<close>

theorem put_book_cases:
  "((\<exists>b\<in>set (books s). has_id (parse_int idp) b)
      \<and> truthy (get_prop body ''title'') \<and> truthy (get_prop body ''author'')
      \<and> truthy (get_prop body ''year'') \<and> truthy (get_prop body ''genre'')
    \<longrightarrow> status (fst (put_book s idp body)) = 200
      \<and> get_book h (snd (put_book s idp body)) idp =
          json 200 [(''success'', JBool True), (''pathParam'', JStr idp),
            (''data'', JObj [(''id'', JNum (parse_int idp)),
               (''title'', get_prop body ''title''), (''author'', get_prop body ''author''),
               (''year'', get_prop body ''year''), (''genre'', get_prop body ''genre'')])]
      \<and> (\<exists>i < length (books s). has_id (parse_int idp) (books s ! i)
            \<and> snd (put_book s idp body) =
                s\<lparr>books := (books s)[i := [(''id'', JNum (parse_int idp)),
                  (''title'', get_prop body ''title''), (''author'', get_prop body ''author''),
                  (''year'', get_prop body ''year''), (''genre'', get_prop body ''genre'')]]\<rparr>))
   \<and> ((\<exists>b\<in>set (books s). has_id (parse_int idp) b)
      \<and> k \<in> {''title'', ''author'', ''year'', ''genre''}
      \<and> (k \<notin> set (map fst (own_props body)) \<or> \<not> truthy (get_prop body k))
    \<longrightarrow> status (fst (put_book s idp body)) = 400 \<and> snd (put_book s idp body) = s)
   \<and> ((\<forall>b\<in>set (books s). \<not> has_id (parse_int idp) b)
    \<longrightarrow> status (fst (put_book s idp body)) = 404 \<and> snd (put_book s idp body) = s)"
proof (intro conjI impI)
  assume a: "(\<exists>b\<in>set (books s). has_id (parse_int idp) b)
      \<and> truthy (get_prop body ''title'') \<and> truthy (get_prop body ''author'')
      \<and> truthy (get_prop body ''year'') \<and> truthy (get_prop body ''genre'')"
  let ?nb = "[(''id'', JNum (parse_int idp)),
               (''title'', get_prop body ''title''), (''author'', get_prop body ''author''),
               (''year'', get_prop body ''year''), (''genre'', get_prop body ''genre'')]"
  from a have "\<exists>b\<in>set (books s). has_id (parse_int idp) b" ..
  from find_index_present [OF this]
  obtain i where i: "find_index (has_id (parse_int idp)) (books s) = Some i" ..
  from a have eq: "put_book s idp body =
      (json 200 [(''success'', JBool True),
             (''message'', JStr ''Book replaced completely!''),
             (''method'', JStr ''PUT - Full replacement''),
             (''data'', JObj ?nb)], s\<lparr>books := (books s)[i := ?nb]\<rparr>)"
    by (simp add: put_book_present [OF i])
  show "status (fst (put_book s idp body)) = 200"
    by (simp add: eq status_json)
  have "lookup ?nb ''id'' = JNum (parse_int idp)"
    by (simp add: lookup_def)
  from get_after_update [OF i this, of h]
  show "get_book h (snd (put_book s idp body)) idp =
          json 200 [(''success'', JBool True), (''pathParam'', JStr idp), (''data'', JObj ?nb)]"
    by (simp add: eq)
  from find_index_Some [OF i]
  show "\<exists>i < length (books s). has_id (parse_int idp) (books s ! i)
            \<and> snd (put_book s idp body) = s\<lparr>books := (books s)[i := ?nb]\<rparr>"
    by (intro exI [of _ i]) (simp add: eq)
next
  assume a: "(\<exists>b\<in>set (books s). has_id (parse_int idp) b)
      \<and> k \<in> {''title'', ''author'', ''year'', ''genre''}
      \<and> (k \<notin> set (map fst (own_props body)) \<or> \<not> truthy (get_prop body k))"
  then have "\<exists>b\<in>set (books s). has_id (parse_int idp) b" ..
  from find_index_present [OF this]
  obtain i where i: "find_index (has_id (parse_int idp)) (books s) = Some i" ..
  from a have "\<not> truthy (get_prop body k)"
    using get_prop_absent [of k body] by (auto simp: not_truthy_undefined)
  with a have falsy: "\<not> truthy (get_prop body ''title'') \<or> \<not> truthy (get_prop body ''author'')
        \<or> \<not> truthy (get_prop body ''year'') \<or> \<not> truthy (get_prop body ''genre'')"
    by auto
  show "status (fst (put_book s idp body)) = 400" "snd (put_book s idp body) = s"
    using falsy by (auto simp: put_book_present [OF i] status_json)
next
  assume a: "\<forall>b\<in>set (books s). \<not> has_id (parse_int idp) b"
  show "status (fst (put_book s idp body)) = 404" "snd (put_book s idp body) = s"
    by (simp_all add: absent_unchanged [OF a] not_found_response)
qed

theorem put_book_cases_witness:
  "(\<exists>b\<in>set (books initial). has_id (parse_int ''1'') b)
   \<and> status (fst (put_book initial ''1'' (JObj [(''title'', JStr ''T''), (''author'', JStr ''A''),
        (''year'', JNum (Fin 1999)), (''genre'', JStr ''G'')]))) = 200
   \<and> get_prop (payload (get_book sample_host (snd (put_book initial ''1''
        (JObj [(''title'', JStr ''T''), (''author'', JStr ''A''),
          (''year'', JNum (Fin 1999)), (''genre'', JStr ''G'')]))) ''1'')) ''data'' =
      JObj [(''id'', JNum (Fin 1)), (''title'', JStr ''T''), (''author'', JStr ''A''),
        (''year'', JNum (Fin 1999)), (''genre'', JStr ''G'')]
   \<and> status (fst (put_book initial ''1'' (JObj [(''title'', JStr ''T'')]))) = 400
   \<and> snd (put_book initial ''1'' (JObj [(''title'', JStr ''T'')])) = initial
   \<and> filter (has_id (parse_int ''9'')) (books initial) = []
   \<and> status (fst (put_book initial ''9'' (JObj []))) = 404"
proof -
  let ?full = "JObj [(''title'', JStr ''T''), (''author'', JStr ''A''),
        (''year'', JNum (Fin 1999)), (''genre'', JStr ''G'')]"
  have p: "parse_int ''9'' = Fin 9" "parse_int ''1'' = Fin 1"
    by (simp_all add: eval_parse_int)
  have absent: "\<forall>b\<in>set (books initial). \<not> has_id (parse_int ''9'') b"
    by (simp add: p eval_store)
  have present: "\<exists>b\<in>set (books initial). has_id (parse_int ''1'') b"
    by (simp add: p eval_store)
  have fields: "truthy (get_prop ?full ''title'')" "truthy (get_prop ?full ''author'')"
    "truthy (get_prop ?full ''year'')" "truthy (get_prop ?full ''genre'')"
    by (simp_all add: eval_store)
  have omitted: "''author'' \<notin> set (map fst (own_props (JObj [(''title'', JStr ''T'')])))"
    by (simp add: own_props_def)
  from put_book_cases [of initial "''1''" ?full sample_host] present fields
  have 1: "status (fst (put_book initial ''1'' ?full)) = 200"
    "get_book sample_host (snd (put_book initial ''1'' ?full)) ''1'' =
       json 200 [(''success'', JBool True), (''pathParam'', JStr ''1''),
         (''data'', JObj [(''id'', JNum (parse_int ''1'')),
           (''title'', get_prop ?full ''title''), (''author'', get_prop ?full ''author''),
           (''year'', get_prop ?full ''year''), (''genre'', get_prop ?full ''genre'')])]"
    by blast+
  from put_book_cases [of initial "''1''" "JObj [(''title'', JStr ''T'')]" sample_host "''author''"]
    present omitted
  have 2: "status (fst (put_book initial ''1'' (JObj [(''title'', JStr ''T'')]))) = 400"
    "snd (put_book initial ''1'' (JObj [(''title'', JStr ''T'')])) = initial"
    by simp_all
  from put_book_cases [of initial "''9''" "JObj []"] absent
  have 3: "status (fst (put_book initial ''9'' (JObj []))) = 404"
    by simp
  from absent have "filter (has_id (parse_int ''9'')) (books initial) = []"
    by (simp add: filter_empty_conv)
  with present 1(1) 2 3 show ?thesis
    by (simp add: 1(2) p payload_json get_prop_JObj lookup_def)
qed

theorem put_book_year_zero_counterexample:
  "(\<exists>b\<in>set (books initial). has_id (parse_int ''1'') b)
   \<and> map fst (own_props (JObj [(''title'', JStr ''T''), (''author'', JStr ''A''),
        (''year'', JNum (Fin 0)), (''genre'', JStr ''G'')]))
      = [''title'', ''author'', ''year'', ''genre'']
   \<and> status (fst (put_book initial ''1'' (JObj [(''title'', JStr ''T''), (''author'', JStr ''A''),
        (''year'', JNum (Fin 0)), (''genre'', JStr ''G'')]))) = 400
   \<and> snd (put_book initial ''1'' (JObj [(''title'', JStr ''T''), (''author'', JStr ''A''),
        (''year'', JNum (Fin 0)), (''genre'', JStr ''G'')])) = initial
   \<and> get_prop (get_prop (payload (get_book sample_host (snd (put_book initial ''1''
        (JObj [(''title'', JStr ''T''), (''author'', JStr ''A''),
          (''year'', JNum (Fin 0)), (''genre'', JStr ''G'')]))) ''1'')) ''data'') ''year''
      = JNum (Fin 2020)"
proof -
  have p: "parse_int ''1'' = Fin 1"
    by (simp add: eval_parse_int)
  have i: "find_index (has_id (parse_int ''1'')) (books initial) = Some 0"
    by (simp add: p eval_store)
  have present: "\<exists>b\<in>set (books initial). has_id (parse_int ''1'') b"
    by (simp add: p eval_store)
  have e: "put_book initial ''1'' (JObj [(''title'', JStr ''T''), (''author'', JStr ''A''),
        (''year'', JNum (Fin 0)), (''genre'', JStr ''G'')]) =
      (json 400 [(''success'', JBool False),
             (''error'', JStr ''PUT requires ALL fields (title, author, year, genre)''),
             (''tip'', JStr ''Use PATCH if you only want to update some fields'')], initial)"
    by (simp add: put_book_present [OF i] get_prop_JObj lookup_def truthy_def is_nan_def
        is_zero_def)
  have g: "get_book sample_host initial ''1'' = json 200 [(''success'', JBool True),
      (''pathParam'', JStr ''1''), (''data'', JObj (books initial ! 0))]"
    by (rule get_book_found [OF i])
  have y: "get_prop (get_prop (payload (get_book sample_host initial ''1'')) ''data'') ''year''
      = JNum (Fin 2020)"
    unfolding g by (simp add: eval_store)
  from present show ?thesis
    by (simp add: e y own_props_def status_json)
qed

section \<open>Patching a book\<close>

text \<open>
  Claim C3. For a path identifier that a book of the store has, a PATCH answers 200 and
  replaces that book by one in which every field that the payload does not name keeps its
  value, the identifier is the (strictly equal) identifier of the path whatever \<open>id\<close> the
  payload carries, and every other field of the payload has the payload's value; no other
  book and no counter changes. The \<open>fieldsChanged\<close> of the response is the list of the keys
  of the payload, in their order.
\<close>

theorem patch_book_frame:
  assumes "wf_store s" "\<exists>b\<in>set (books s). has_id (parse_int idp) b"
  shows "status (fst (patch_book s idp body)) = 200
    \<and> get_prop (payload (fst (patch_book s idp body))) ''fieldsChanged'' =
        JArr (map JStr (map fst (own_props body)))
    \<and> (\<exists>i upd. i < length (books s) \<and> has_id (parse_int idp) (books s ! i)
          \<and> snd (patch_book s idp body) = s\<lparr>books := (books s)[i := upd]\<rparr>
          \<and> get_prop (payload (fst (patch_book s idp body))) ''updated'' = JObj upd
          \<and> (\<forall>k. k \<notin> set (map fst (own_props body)) \<and> k \<noteq> ''id'' \<longrightarrow>
                lookup upd k = lookup (books s ! i) k)
          \<and> lookup upd ''id'' = JNum (parse_int idp)
          \<and> (store_inv s \<longrightarrow> lookup upd ''id'' = lookup (books s ! i) ''id'')
          \<and> (\<forall>k v. distinct (map fst (own_props body)) \<and> (k, v) \<in> set (own_props body)
                \<and> k \<noteq> ''id'' \<longrightarrow> lookup upd k = v))"
proof -
  from find_index_present [OF assms(2)]
  obtain i where i: "find_index (has_id (parse_int idp)) (books s) = Some i" ..
  from find_index_Some [OF i] have il: "i < length (books s)"
    and hit: "has_id (parse_int idp) (books s ! i)" by auto
  let ?old = "books s ! i"
  let ?upd = "set_prop ''id'' (JNum (parse_int idp)) (spread (spread [] ?old) (own_props body))"
  note eq = patch_book_present [OF i, of body]
  have old: "distinct (map fst ?old)"
    using assms(1) il by (rule wf_storeD)
  have 1: "status (fst (patch_book s idp body)) = 200"
    by (simp add: eq status_json)
  have 2: "get_prop (payload (fst (patch_book s idp body))) ''fieldsChanged'' =
        JArr (map JStr (map fst (own_props body)))"
    by (simp add: eq payload_json get_prop_JObj lookup_def object_keys_def comp_def)
  have 3: "snd (patch_book s idp body) = s\<lparr>books := (books s)[i := ?upd]\<rparr>"
    by (simp add: eq)
  have 4: "get_prop (payload (fst (patch_book s idp body))) ''updated'' = JObj ?upd"
    by (simp add: eq payload_json get_prop_JObj lookup_def)
  have 5: "\<forall>k. k \<notin> set (map fst (own_props body)) \<and> k \<noteq> ''id'' \<longrightarrow>
      lookup ?upd k = lookup ?old k"
  proof (intro allI impI)
    fix k assume k: "k \<notin> set (map fst (own_props body)) \<and> k \<noteq> ''id''"
    then have none: "map_of (rev (own_props body)) k = None"
      by (simp add: map_of_eq_None_iff)
    from k have "lookup ?upd k = lookup (spread (spread [] ?old) (own_props body)) k"
      by (simp add: lookup_set_prop)
    also have "\<dots> = lookup (spread [] ?old) k"
      by (simp add: lookup_spread [of "spread [] ?old"] none)
    also have "\<dots> = lookup ?old k"
      by (rule lookup_copy [OF old])
    finally show "lookup ?upd k = lookup ?old k" .
  qed
  have 6: "lookup ?upd ''id'' = JNum (parse_int idp)"
    by (simp add: lookup_set_prop)
  have 7: "store_inv s \<longrightarrow> lookup ?upd ''id'' = lookup ?old ''id''"
  proof
    assume "store_inv s"
    then obtain c where "\<forall>b\<in>set (books s). id_below c b"
      by (rule invD)
    with il have "id_below c ?old" by simp
    from id_below_has_id [OF this hit] 6 show "lookup ?upd ''id'' = lookup ?old ''id''"
      by simp
  qed
  have 8: "\<forall>k v. distinct (map fst (own_props body)) \<and> (k, v) \<in> set (own_props body)
      \<and> k \<noteq> ''id'' \<longrightarrow> lookup ?upd k = v"
  proof (intro allI impI)
    fix k v
    assume k: "distinct (map fst (own_props body)) \<and> (k, v) \<in> set (own_props body)
      \<and> k \<noteq> ''id''"
    then have "map_of (rev (own_props body)) k = Some v"
      by (simp add: map_of_rev_distinct)
    with k show "lookup ?upd k = v"
      by (simp add: lookup_set_prop lookup_spread)
  qed
  show ?thesis
    by (intro conjI exI [of _ i] exI [of _ ?upd]) (fact 1 2 il hit 3 4 5 6 7 8)+
qed

theorem patch_book_frame_witness:
  "wf_store initial
   \<and> (\<exists>b\<in>set (books initial). has_id (parse_int ''1'') b)
   \<and> status (fst (patch_book initial ''1'' (JObj [(''year'', JNum (Fin 2030))]))) = 200
   \<and> get_prop (payload (fst (patch_book initial ''1'' (JObj [(''year'', JNum (Fin 2030))]))))
        ''fieldsChanged'' = JArr [JStr ''year'']
   \<and> books (snd (patch_book initial ''1'' (JObj [(''year'', JNum (Fin 2030))]))) =
        (books initial)[0 := book 1 ''The API Design Book'' ''RESTful Roy'' 2030 ''Technology'']"
proof -
  let ?body = "JObj [(''year'', JNum (Fin 2030))]"
  have p: "parse_int ''1'' = Fin 1"
    by (simp add: eval_parse_int)
  have present: "\<exists>b\<in>set (books initial). has_id (parse_int ''1'') b"
    by (simp add: p eval_store)
  from patch_book_frame [OF initial_wf present, of ?body]
  have 1: "status (fst (patch_book initial ''1'' ?body)) = 200"
    and 2: "get_prop (payload (fst (patch_book initial ''1'' ?body))) ''fieldsChanged'' =
        JArr (map JStr (map fst (own_props ?body)))"
    by blast+
  have i: "find_index (has_id (parse_int ''1'')) (books initial) = Some 0"
    by (simp add: p eval_store)
  have b: "books initial ! 0 = book 1 ''The API Design Book'' ''RESTful Roy'' 2020 ''Technology''"
    by (simp add: initial_def)
  have u: "set_prop ''id'' (JNum (Fin 1))
      (spread (spread [] (book 1 ''The API Design Book'' ''RESTful Roy'' 2020 ''Technology''))
        (own_props ?body)) = book 1 ''The API Design Book'' ''RESTful Roy'' 2030 ''Technology''"
    by (simp add: book_def own_props_def spread_def set_prop_def is_array_index_def is_digit_def)
  have 3: "books (snd (patch_book initial ''1'' ?body)) =
        (books initial)[0 := book 1 ''The API Design Book'' ''RESTful Roy'' 2030 ''Technology'']"
    by (simp add: patch_book_present [OF i] b p u)
  from initial_wf present 1 2 3 show ?thesis
    by (simp add: own_props_def)
qed

section \<open>The limit of a list request\<close>

text \<open>
  Claim C4, as amended. When the filter and the sort of \<open>GET /api/books\<close> do not throw and
  the limit parameter is a string that parses to the integer \<open>N\<close>, the answer is 200 and the
  data is the result of the filter and the sort cut to its first \<open>N\<close> entries for \<open>N \<ge> 0\<close> (so
  empty for \<open>N = 0\<close>, and the whole result when \<open>N\<close> is at least its length), and cut by its
  last \<open>-N\<close> entries for \<open>N < 0\<close>.
\<close>

theorem list_books_limit:
  assumes "filtered_sorted h s query = Inr r" "get_prop query ''limit'' = JStr l"
    "int_value (parse_int l) = Some N"
  shows "status (list_books h s query) = 200
    \<and> get_prop (payload (list_books h s query)) ''data'' =
        JArr (map JObj (if 0 \<le> N then take (nat N) r else take (length r - nat (- N)) r))
    \<and> (N = 0 \<longrightarrow> get_prop (payload (list_books h s query)) ''data'' = JArr [])
    \<and> (int (length r) \<le> N \<longrightarrow>
          get_prop (payload (list_books h s query)) ''data'' = JArr (map JObj r))"
proof -
  from assms(3) have "l \<noteq> []"
    by (auto simp: parse_int_empty int_value_def)
  then have t: "truthy (get_prop query ''limit'')"
    by (simp add: assms(2) truthy_def)
  have p: "parseInt h (get_prop query ''limit'') = Inr (parse_int l)"
    by (simp add: parseInt_JStr assms(2))
  have c: "slice0 (parse_int l) r = (if 0 \<le> N then take (nat N) r else take (length r - nat (- N)) r)"
    by (simp add: slice0_def int_value_slice_end [OF assms(3)] min_def)
  have d: "get_prop (payload (list_books h s query)) ''data'' =
        JArr (map JObj (if 0 \<le> N then take (nat N) r else take (length r - nat (- N)) r))"
    unfolding list_books_limited [OF assms(1) t p] c
    by (simp add: payload_json get_prop_JObj lookup_def)
  have "status (list_books h s query) = 200"
    unfolding list_books_limited [OF assms(1) t p] by (rule status_json)
  then show ?thesis
    unfolding d by simp
qed

theorem list_books_limit_witness:
  "filtered_sorted sample_host initial (JObj [(''sort'', JStr ''title''), (''limit'', JStr ''2'')])
      = Inr [books initial ! 1, books initial ! 2, books initial ! 0, books initial ! 3]
   \<and> get_prop (JObj [(''sort'', JStr ''title''), (''limit'', JStr ''2'')]) ''limit'' = JStr ''2''
   \<and> int_value (parse_int ''2'') = Some 2
   \<and> get_prop (payload (list_books sample_host initial
        (JObj [(''sort'', JStr ''title''), (''limit'', JStr ''2'')]))) ''data''
      = JArr (map JObj [books initial ! 1, books initial ! 2])"
proof -
  have f: "filtered_sorted sample_host initial (JObj [(''sort'', JStr ''title''), (''limit'', JStr ''2'')])
      = Inr [books initial ! 1, books initial ! 2, books initial ! 0, books initial ! 3]"
    by (simp add: filtered_sorted_def compare_by_def sample_host_def sample_less_def
        get_prop_JObj lookup_def truthy_def initial_def book_def)
  have l: "get_prop (JObj [(''sort'', JStr ''title''), (''limit'', JStr ''2'')]) ''limit'' = JStr ''2''"
    by (simp add: get_prop_JObj lookup_def)
  have n: "int_value (parse_int ''2'') = Some 2"
    by (simp add: eval_parse_int int_value_def)
  from list_books_limit [OF f l n] f l n show ?thesis
    by simp
qed

theorem list_books_negative_limit_counterexample:
  "int_value (parse_int ''-1'') = Some (- 1)
   \<and> get_prop (payload (list_books sample_host initial (JObj [(''limit'', JStr ''-1'')]))) ''data''
      = JArr (map JObj (take 3 (books initial)))
   \<and> get_prop (payload (list_books sample_host initial (JObj [(''limit'', JStr ''-1'')]))) ''data''
      \<noteq> JArr []
   \<and> status (list_books sample_host initial
        (JObj [(''genre'', JArr [JStr ''Technology'']), (''limit'', JStr ''2'')])) = 500
   \<and> status (list_books sample_host
        (snd (post_book (Fin 2024) initial (JObj [(''title'', JStr ''T''), (''author'', JStr ''A''),
           (''year'', JObj [(''toString'', JNum (Fin 1))])])))
        (JObj [(''sort'', JStr ''year''), (''limit'', JStr ''2'')])) = 500"
proof -
  have t: "status (list_books sample_host initial
        (JObj [(''genre'', JArr [JStr ''Technology'']), (''limit'', JStr ''2'')])) = 500"
    by (simp add: list_books_def filtered_sorted_def genre_matches_def internal_error_def
        get_prop_JObj lookup_def truthy_def initial_def book_def status_json)
  have u: "status (list_books sample_host
        (snd (post_book (Fin 2024) initial (JObj [(''title'', JStr ''T''), (''author'', JStr ''A''),
           (''year'', JObj [(''toString'', JNum (Fin 1))])])))
        (JObj [(''sort'', JStr ''year''), (''limit'', JStr ''2'')])) = 500"
    by (simp add: list_books_def filtered_sorted_def compare_by_def sample_host_def sample_less_def
        internal_error_def post_book_def Let_def
        get_prop_JObj lookup_def truthy_def initial_def book_def status_json)
  have f: "filtered_sorted sample_host initial (JObj [(''limit'', JStr ''-1'')]) = Inr (books initial)"
    by (simp add: filtered_sorted_def get_prop_JObj lookup_def truthy_def)
  have l: "truthy (get_prop (JObj [(''limit'', JStr ''-1'')]) ''limit'')"
    "parseInt sample_host (get_prop (JObj [(''limit'', JStr ''-1'')]) ''limit'') = Inr (parse_int ''-1'')"
    by (simp_all add: get_prop_JObj lookup_def truthy_def parseInt_JStr)
  have p: "parse_int ''-1'' = Fin (- 1)"
    by (simp add: eval_parse_int)
  have n: "int_value (parse_int ''-1'') = Some (- 1)"
    using int_value_of_int [of "- 1"] by (simp add: p)
  have c: "slice0 (parse_int ''-1'') (books initial) = take 3 (books initial)"
    by (simp add: slice0_def int_value_slice_end [OF n] initial_def)
  have d: "get_prop (payload (list_books sample_host initial (JObj [(''limit'', JStr ''-1'')]))) ''data''
      = JArr (map JObj (take 3 (books initial)))"
    unfolding list_books_limited [OF f l] c
    by (simp add: payload_json get_prop_JObj lookup_def)
  from t u show ?thesis
    unfolding d by (simp add: n initial_def)
qed

section \<open>Deleting a book\<close>

text \<open>
  Claim C5. \<open>DELETE /api/books/:id\<close> on an identifier that no book has answers 404 and
  leaves the store as it was. In a store that satisfies the invariant, on an identifier
  that a book has, it answers 200 and removes that one entry; afterwards no book has the
  identifier, so a Get of it answers 404 and the same DELETE again answers 404 and
  changes nothing.
\<close>

theorem delete_book_cases:
  "((\<forall>b\<in>set (books s). \<not> has_id (parse_int idp) b) \<longrightarrow>
      status (fst (delete_book s idp)) = 404 \<and> snd (delete_book s idp) = s)
   \<and> (store_inv s \<and> (\<exists>b\<in>set (books s). has_id (parse_int idp) b) \<longrightarrow>
      (\<exists>i < length (books s). has_id (parse_int idp) (books s ! i)
         \<and> status (fst (delete_book s idp)) = 200
         \<and> get_prop (payload (fst (delete_book s idp))) ''deletedBook'' = JObj (books s ! i)
         \<and> snd (delete_book s idp) = s\<lparr>books := take i (books s) @ drop (Suc i) (books s)\<rparr>)
      \<and> (\<forall>b\<in>set (books (snd (delete_book s idp))). \<not> has_id (parse_int idp) b)
      \<and> status (get_book h (snd (delete_book s idp)) idp) = 404
      \<and> status (fst (delete_book (snd (delete_book s idp)) idp)) = 404
      \<and> snd (delete_book (snd (delete_book s idp)) idp) = snd (delete_book s idp))"
proof (intro conjI impI)
  assume a: "\<forall>b\<in>set (books s). \<not> has_id (parse_int idp) b"
  show "status (fst (delete_book s idp)) = 404" "snd (delete_book s idp) = s"
    by (simp_all add: absent_unchanged [OF a] not_found_response)
next
  assume a: "store_inv s \<and> (\<exists>b\<in>set (books s). has_id (parse_int idp) b)"
  then have "\<exists>b\<in>set (books s). has_id (parse_int idp) b" ..
  from find_index_present [OF this]
  obtain i where i: "find_index (has_id (parse_int idp)) (books s) = Some i" ..
  let ?s' = "s\<lparr>books := take i (books s) @ drop (Suc i) (books s)\<rparr>"
  have d: "snd (delete_book s idp) = ?s'"
    "fst (delete_book s idp) = json 200 [(''success'', JBool True),
         (''message'', JStr ''Book deleted successfully!''),
         (''deletedBook'', JObj (books s ! i))]"
    by (simp_all add: delete_book_present [OF i])
  have gone: "\<forall>b\<in>set (books ?s'). \<not> has_id (parse_int idp) b"
    using first_match_only [OF _ i] a by simp
  from find_index_Some [OF i]
  show "\<exists>i < length (books s). has_id (parse_int idp) (books s ! i)
         \<and> status (fst (delete_book s idp)) = 200
         \<and> get_prop (payload (fst (delete_book s idp))) ''deletedBook'' = JObj (books s ! i)
         \<and> snd (delete_book s idp) = s\<lparr>books := take i (books s) @ drop (Suc i) (books s)\<rparr>"
    by (intro exI [of _ i]) (simp add: d status_json payload_json get_prop_JObj lookup_def)
  show "\<forall>b\<in>set (books (snd (delete_book s idp))). \<not> has_id (parse_int idp) b"
    unfolding d by (rule gone)
  show "status (get_book h (snd (delete_book s idp)) idp) = 404"
    unfolding d using get_book_absent [OF gone] by simp
  show "status (fst (delete_book (snd (delete_book s idp)) idp)) = 404"
    "snd (delete_book (snd (delete_book s idp)) idp) = snd (delete_book s idp)"
    unfolding d by (simp_all add: absent_unchanged [OF gone] not_found_response)
qed

theorem delete_book_cases_witness:
  "filter (has_id (parse_int ''9'')) (books initial) = []
   \<and> status (fst (delete_book initial ''9'')) = 404
   \<and> snd (delete_book initial ''9'') = initial
   \<and> store_inv initial
   \<and> (\<exists>b\<in>set (books initial). has_id (parse_int ''2'') b)
   \<and> status (get_book sample_host (snd (delete_book initial ''2'')) ''2'') = 404
   \<and> status (fst (delete_book (snd (delete_book initial ''2'')) ''2'')) = 404"
proof -
  have p: "parse_int ''9'' = Fin 9" "parse_int ''2'' = Fin 2"
    by (simp_all add: eval_parse_int)
  have absent: "\<forall>b\<in>set (books initial). \<not> has_id (parse_int ''9'') b"
    by (simp add: p eval_store)
  have present: "\<exists>b\<in>set (books initial). has_id (parse_int ''2'') b"
    by (simp add: p eval_store)
  from delete_book_cases [of initial "''9''" sample_host] absent
  have 1: "status (fst (delete_book initial ''9'')) = 404" "snd (delete_book initial ''9'') = initial"
    by simp_all
  from delete_book_cases [of initial "''2''" sample_host] initial_inv present
  have 2: "status (get_book sample_host (snd (delete_book initial ''2'')) ''2'') = 404"
    "status (fst (delete_book (snd (delete_book initial ''2'')) ''2'')) = 404"
    by simp_all
  from absent have "filter (has_id (parse_int ''9'')) (books initial) = []"
    by (simp add: filter_empty_conv)
  with present initial_inv 1 2 show ?thesis
    by simp
qed

section \<open>The bearer token of the user list\<close>

text \<open>
  Claim C6, as amended. \<open>GET /api/users\<close> answers 401 when the request has no
  \<open>Authorization\<close> header or an empty one, 403 when the header has a non-empty value other
  than \<open>Bearer secret-token-123\<close>, and 200 with the whole user list when the value is
  exactly that string.
\<close>

theorem get_users_auth:
  "(get_prop headers ''authorization'' = JUndefined \<or> get_prop headers ''authorization'' = JStr []
      \<longrightarrow> status (get_users s headers) = 401)
   \<and> (get_prop headers ''authorization'' = JStr v \<and> v \<noteq> [] \<and> v \<noteq> ''Bearer secret-token-123''
      \<longrightarrow> status (get_users s headers) = 403)
   \<and> (get_prop headers ''authorization'' = JStr ''Bearer secret-token-123''
      \<longrightarrow> status (get_users s headers) = 200
        \<and> get_prop (payload (get_users s headers)) ''data'' = JArr (map JObj (users s)))"
  by (auto simp: get_users_def Let_def truthy_def strict_eq_str_def status_json payload_json
      get_prop_JObj lookup_def)

theorem get_users_auth_witness:
  "status (get_users initial (JObj [])) = 401
   \<and> status (get_users initial (JObj [(''authorization'', JStr ''Bearer wrong'')])) = 403
   \<and> status (get_users initial (JObj [(''authorization'', JStr ''Bearer secret-token-123'')])) = 200
   \<and> get_prop (payload (get_users initial
        (JObj [(''authorization'', JStr ''Bearer secret-token-123'')]))) ''data''
      = JArr (map JObj (users initial))"
proof -
  have 1: "status (get_users initial (JObj [])) = 401"
    using get_users_auth [of "JObj []" initial] by (simp add: get_prop_JObj lookup_def)
  have 2: "status (get_users initial (JObj [(''authorization'', JStr ''Bearer wrong'')])) = 403"
    using get_users_auth [of "JObj [(''authorization'', JStr ''Bearer wrong'')]" initial
        "''Bearer wrong''"]
    by (simp add: get_prop_JObj lookup_def)
  have 3: "status (get_users initial
        (JObj [(''authorization'', JStr ''Bearer secret-token-123'')])) = 200
      \<and> get_prop (payload (get_users initial
        (JObj [(''authorization'', JStr ''Bearer secret-token-123'')]))) ''data''
      = JArr (map JObj (users initial))"
    using get_users_auth [of "JObj [(''authorization'', JStr ''Bearer secret-token-123'')]" initial]
    by (simp add: get_prop_JObj lookup_def)
  from 1 2 3 show ?thesis
    by simp
qed

theorem get_users_empty_header_counterexample:
  "get_prop (JObj [(''authorization'', JStr '''')]) ''authorization'' = JStr ''''
   \<and> '''' \<noteq> ''Bearer secret-token-123''
   \<and> status (get_users initial (JObj [(''authorization'', JStr '''')])) = 401
   \<and> status (get_users initial (JObj [(''authorization'', JStr '''')])) \<noteq> 403"
  by (simp add: get_users_def Let_def truthy_def status_json get_prop_JObj lookup_def)

section \<open>The calculator\<close>



section \<open>Path segments that are not numbers\<close>




section \<open>The defaults of a create\<close>

text \<open>
  Claim C9, as amended. A valid create stores a supplied year that is truthy as it is
  given, and the year of the clock when the body has no year or has a falsy one (0, the
  empty string, \<open>null\<close>, \<open>false\<close>); it stores a supplied genre that is truthy as it is given,
  and \<open>General\<close> when the body has no genre or has a falsy one.
\<close>

theorem post_book_defaults:
  assumes "truthy (get_prop body ''title'')" "truthy (get_prop body ''author'')"
  shows "\<exists>nb. get_prop (payload (fst (post_book y s body))) ''data'' = JObj nb
    \<and> books (snd (post_book y s body)) = books s @ [nb]
    \<and> (truthy (get_prop body ''year'') \<longrightarrow> lookup nb ''year'' = get_prop body ''year'')
    \<and> (''year'' \<notin> set (map fst (own_props body)) \<longrightarrow> lookup nb ''year'' = JNum y)
    \<and> (\<not> truthy (get_prop body ''year'') \<longrightarrow> lookup nb ''year'' = JNum y)
    \<and> (truthy (get_prop body ''genre'') \<longrightarrow> lookup nb ''genre'' = get_prop body ''genre'')
    \<and> (''genre'' \<notin> set (map fst (own_props body)) \<longrightarrow> lookup nb ''genre'' = JStr ''General'')
    \<and> (\<not> truthy (get_prop body ''genre'') \<longrightarrow> lookup nb ''genre'' = JStr ''General'')"
proof -
  have omitted: "\<not> truthy (get_prop body k)" if "k \<notin> fst ` set (own_props body)" for k
    using get_prop_absent [of k body] that by (simp add: not_truthy_undefined)
  show ?thesis
    unfolding post_book_valid_eq [OF assms]
    by (auto simp: payload_json get_prop_JObj lookup_def dest: omitted)
qed

theorem post_book_defaults_witness:
  "truthy (get_prop (JObj [(''title'', JStr ''T''), (''author'', JStr ''A''),
      (''year'', JNum (Fin 1999))]) ''title'')
   \<and> truthy (get_prop (JObj [(''title'', JStr ''T''), (''author'', JStr ''A''),
      (''year'', JNum (Fin 1999))]) ''author'')
   \<and> lookup (last (books (snd (post_book (Fin 2026) initial (JObj [(''title'', JStr ''T''),
        (''author'', JStr ''A''), (''year'', JNum (Fin 1999))]))))) ''year'' = JNum (Fin 1999)
   \<and> lookup (last (books (snd (post_book (Fin 2026) initial (JObj [(''title'', JStr ''T''),
        (''author'', JStr ''A''), (''year'', JNum (Fin 1999))]))))) ''genre'' = JStr ''General''"
proof -
  let ?body = "JObj [(''title'', JStr ''T''), (''author'', JStr ''A''), (''year'', JNum (Fin 1999))]"
  have t: "truthy (get_prop ?body ''title'')" and a: "truthy (get_prop ?body ''author'')"
    by (simp_all add: eval_store)
  have y: "truthy (get_prop ?body ''year'')" "get_prop ?body ''year'' = JNum (Fin 1999)"
    and g: "''genre'' \<notin> set (map fst (own_props ?body))"
    by (simp_all add: eval_store own_props_def)
  from post_book_defaults [OF t a, of "Fin 2026" initial] y g
  obtain nb where "books (snd (post_book (Fin 2026) initial ?body)) = books initial @ [nb]"
    "lookup nb ''year'' = JNum (Fin 1999)" "lookup nb ''genre'' = JStr ''General''"
    by auto
  with t a show ?thesis
    by simp
qed

theorem post_book_falsy_counterexample:
  "get_prop (JObj [(''title'', JStr ''T''), (''author'', JStr ''A''),
      (''year'', JNum (Fin 0)), (''genre'', JStr '''')]) ''year'' = JNum (Fin 0)
   \<and> get_prop (JObj [(''title'', JStr ''T''), (''author'', JStr ''A''),
      (''year'', JNum (Fin 0)), (''genre'', JStr '''')]) ''genre'' = JStr ''''
   \<and> status (fst (post_book (Fin 2026) initial (JObj [(''title'', JStr ''T''),
        (''author'', JStr ''A''), (''year'', JNum (Fin 0)), (''genre'', JStr '''')]))) = 201
   \<and> lookup (last (books (snd (post_book (Fin 2026) initial (JObj [(''title'', JStr ''T''),
        (''author'', JStr ''A''), (''year'', JNum (Fin 0)), (''genre'', JStr '''')]))))) ''year''
      = JNum (Fin 2026)
   \<and> lookup (last (books (snd (post_book (Fin 2026) initial (JObj [(''title'', JStr ''T''),
        (''author'', JStr ''A''), (''year'', JNum (Fin 0)), (''genre'', JStr '''')]))))) ''genre''
      = JStr ''General''"
  by (simp add: post_book_def Let_def eval_store)

section \<open>A limit that does not parse\<close>

text \<open>
  Claim C10, as amended. When the filter and the sort of \<open>GET /api/books\<close> do not throw and
  the limit parameter is truthy (for a string: not empty) and \<open>parseInt\<close> reads it as \<open>NaN\<close>,
  the answer is 200 with the empty list as data, however many books the filter lets
  through.
\<close>

theorem list_books_limit_unparsable:
  assumes "filtered_sorted h s query = Inr r" "truthy (get_prop query ''limit'')"
    "parseInt h (get_prop query ''limit'') = Inr NaN"
  shows "status (list_books h s query) = 200
    \<and> get_prop (payload (list_books h s query)) ''data'' = JArr []
    \<and> get_prop (payload (list_books h s query)) ''count'' = JNum (Fin 0)"
  unfolding list_books_limited [OF assms]
  by (simp add: status_json payload_json get_prop_JObj lookup_def slice0_def slice_end_def)

theorem list_books_limit_unparsable_witness:
  "filtered_sorted sample_host initial (JObj [(''limit'', JStr ''abc'')]) = Inr (books initial)
   \<and> truthy (get_prop (JObj [(''limit'', JStr ''abc'')]) ''limit'')
   \<and> parseInt sample_host (get_prop (JObj [(''limit'', JStr ''abc'')]) ''limit'') = Inr NaN
   \<and> get_prop (payload (list_books sample_host initial (JObj [(''limit'', JStr ''abc'')]))) ''data''
      = JArr []"
proof -
  have f: "filtered_sorted sample_host initial (JObj [(''limit'', JStr ''abc'')]) = Inr (books initial)"
    by (simp add: filtered_sorted_def get_prop_JObj lookup_def truthy_def)
  have t: "truthy (get_prop (JObj [(''limit'', JStr ''abc'')]) ''limit'')"
    by (simp add: get_prop_JObj lookup_def truthy_def)
  have p: "parseInt sample_host (get_prop (JObj [(''limit'', JStr ''abc'')]) ''limit'') = Inr NaN"
    by (simp add: parseInt_JStr get_prop_JObj lookup_def eval_parse_int)
  from list_books_limit_unparsable [OF f t p] f t p show ?thesis
    by simp
qed

theorem list_books_empty_limit_counterexample:
  "get_prop (JObj [(''limit'', JStr '''')]) ''limit'' = JStr ''''
   \<and> parseInt sample_host (get_prop (JObj [(''limit'', JStr '''')]) ''limit'') = Inr NaN
   \<and> get_prop (payload (list_books sample_host initial (JObj [(''limit'', JStr '''')]))) ''data''
      = JArr (map JObj (books initial))
   \<and> get_prop (payload (list_books sample_host initial (JObj [(''limit'', JStr '''')]))) ''data''
      \<noteq> JArr []
   \<and> status (list_books sample_host initial
        (JObj [(''genre'', JArr [JStr ''Technology'']), (''limit'', JStr ''abc'')])) = 500
   \<and> status (list_books sample_host initial
        (JObj [(''limit'', JObj [(''toString'', JStr ''1'')])])) = 500"
proof -
  have t: "status (list_books sample_host initial
        (JObj [(''genre'', JArr [JStr ''Technology'']), (''limit'', JStr ''abc'')])) = 500"
    by (simp add: list_books_def filtered_sorted_def genre_matches_def internal_error_def
        get_prop_JObj lookup_def truthy_def initial_def book_def status_json)
  have u: "status (list_books sample_host initial
        (JObj [(''limit'', JObj [(''toString'', JStr ''1'')])])) = 500"
    by (simp add: list_books_def filtered_sorted_def internal_error_def parseInt_def
        get_prop_JObj lookup_def truthy_def status_json)
  have f: "filtered_sorted sample_host initial (JObj [(''limit'', JStr '''')]) = Inr (books initial)"
    by (simp add: filtered_sorted_def get_prop_JObj lookup_def truthy_def)
  have l: "\<not> truthy (get_prop (JObj [(''limit'', JStr '''')]) ''limit'')"
    by (simp add: get_prop_JObj lookup_def truthy_def)
  have d: "get_prop (payload (list_books sample_host initial (JObj [(''limit'', JStr '''')]))) ''data''
      = JArr (map JObj (books initial))"
    unfolding list_books_unlimited [OF f l]
    by (simp add: payload_json get_prop_JObj lookup_def)
  from t u show ?thesis
    unfolding d by (simp add: get_prop_JObj lookup_def parseInt_JStr parse_int_empty initial_def)
qed

end
